theory Spec2Isabelle
  imports Main "HOL-Library.Char_ord"
begin

section \<open>Texts\<close>

text \<open>
  The analyzer reads one JavaScript string and answers with constant strings.
  The text it reads is modelled as a \<open>string\<close>: a list of code units of the range
  U+0000 .. U+00FF, on which \<open>toLowerCase\<close>, \<open>trim\<close> and the character classes of the
  regular expressions are written out in full below. The strings it answers with hold
  characters beyond that range (U+2013, U+2014, U+03B1), so they are lists of UTF-16 code
  units, each given by its two bytes, the high one first.
\<close>

type_synonym unit16 = "char \<times> char"
type_synonym ustring = "unit16 list"

definition str :: "string \<Rightarrow> ustring" where
  "str s = map (\<lambda>c. (CHR 0x00, c)) s"

text \<open>\<open>String(n)\<close> for a count \<open>n\<close>, as a template literal interpolates it.\<close>

fun digits :: "nat \<Rightarrow> ustring" where
  "digits n = (if n < 10 then str [''0123456789'' ! n]
               else digits (n div 10) @ str [''0123456789'' ! (n mod 10)])"

text \<open>\<open>\s\<close> and \<open>trim\<close>: white space and line terminators of the range.\<close>

definition is_space :: "char \<Rightarrow> bool" where
  "is_space c = (c = CHR 0x20 \<or> c = CHR 0x09 \<or> c = CHR 0x0A \<or> c = CHR 0x0B \<or>
                 c = CHR 0x0C \<or> c = CHR 0x0D \<or> c = CHR 0xA0)"

text \<open>The characters \<open>.\<close> refuses and before which \<open>$\<close> holds under flag \<open>m\<close>.\<close>

definition is_line_term :: "char \<Rightarrow> bool" where
  "is_line_term c = (c = CHR 0x0A \<or> c = CHR 0x0D)"

definition any_char :: "char \<Rightarrow> bool" where
  "any_char c = (\<not> is_line_term c)"

text \<open>\<open>[A-Za-z_]\<close>, \<open>\w\<close>.\<close>

definition is_alpha_us :: "char \<Rightarrow> bool" where
  "is_alpha_us c = ((CHR ''a'' \<le> c \<and> c \<le> CHR ''z'') \<or> (CHR ''A'' \<le> c \<and> c \<le> CHR ''Z'') \<or>
                    c = CHR ''_'')"

definition is_word :: "char \<Rightarrow> bool" where
  "is_word c = (is_alpha_us c \<or> (CHR ''0'' \<le> c \<and> c \<le> CHR ''9''))"

text \<open>
  \<open>toLowerCase\<close> on one code unit: the capital letters of Basic Latin and of Latin-1
  (U+00C0 .. U+00DE without the multiplication sign U+00D7) move by 32.
\<close>

definition lower_unit :: "nat \<Rightarrow> nat" where
  "lower_unit n = (if (65 \<le> n \<and> n \<le> 90) \<or> (192 \<le> n \<and> n \<le> 214) \<or> (216 \<le> n \<and> n \<le> 222)
                   then n + 32 else n)"

definition lower_char :: "char \<Rightarrow> char" where
  "lower_char c = char_of (lower_unit (of_char c))"

definition lower :: "string \<Rightarrow> string" where
  "lower code = map lower_char code"

text \<open>
  The same on a constant string of the catalog (\<open>r.name.toLowerCase()\<close>); the only units
  of those names outside Latin-1 are dashes, which have no case.
\<close>

definition lower_u :: "ustring \<Rightarrow> ustring" where
  "lower_u s = map (\<lambda>(h, l). if h = CHR 0x00 then (h, lower_char l) else (h, l)) s"

fun starts_with :: "'a list \<Rightarrow> 'a list \<Rightarrow> bool" where
  "starts_with s [] = True"
| "starts_with [] (c # w) = False"
| "starts_with (d # s) (c # w) = (d = c \<and> starts_with s w)"

text \<open>\<open>s.includes(w)\<close>.\<close>

fun js_includes :: "'a list \<Rightarrow> 'a list \<Rightarrow> bool" where
  "js_includes [] w = (w = [])"
| "js_includes (c # s) w = (starts_with (c # s) w \<or> js_includes s w)"

text \<open>\<open>s.trim()\<close> and \<open>s.slice(a, b)\<close> for \<open>0 \<le> a\<close>, \<open>0 \<le> b\<close>.\<close>

definition trim :: "string \<Rightarrow> string" where
  "trim s = rev (dropWhile is_space (rev (dropWhile is_space s)))"

definition slice :: "nat \<Rightarrow> nat \<Rightarrow> string \<Rightarrow> string" where
  "slice a b s = take (b - a) (drop a s)"

text \<open>\<open>s.indexOf(c, from)\<close>; \<open>None\<close> is \<open>-1\<close>.\<close>

fun index_in :: "char \<Rightarrow> string \<Rightarrow> nat \<Rightarrow> nat option" where
  "index_in c [] i = None"
| "index_in c (x # xs) i = (if x = c then Some i else index_in c xs (Suc i))"

definition indexOf :: "string \<Rightarrow> char \<Rightarrow> nat \<Rightarrow> nat option" where
  "indexOf s c from = index_in c (drop from s) from"

section \<open>Regular expressions\<close>

text \<open>
  The patterns of the source, as syntax trees, and a backtracking matcher that returns
  every way a pattern matches at a place, in the order in which JavaScript tries them:
  for an alternative the left branch first, for a greedy star the longer repetitions
  first, for a lazy star the shorter ones first. The first element is the match the
  engine reports.
\<close>

datatype rx =
    Chr "char \<Rightarrow> bool"
  | Eps
  | Seq rx rx
  | Alt rx rx
  | Star rx
  | Lazy rx
  | Grp nat rx
  | Bnd
  | Eol
  | NotAhead rx
  | Back nat

text \<open>
  A place in the subject: the index, the character before it, the text from it on, and
  the groups captured so far (the latest first).
\<close>

type_synonym caps = "(nat \<times> string) list"
type_synonym mstate = "nat \<times> char option \<times> string \<times> caps"

fun ms_pos :: "mstate \<Rightarrow> nat" where
  "ms_pos (i, p, rs, g) = i"

fun ms_rest :: "mstate \<Rightarrow> string" where
  "ms_rest (i, p, rs, g) = rs"

fun word_before :: "mstate \<Rightarrow> bool" where
  "word_before (i, p, rs, g) = (case p of None \<Rightarrow> False | Some c \<Rightarrow> is_word c)"

fun word_after :: "mstate \<Rightarrow> bool" where
  "word_after (i, p, rs, g) = (case rs of [] \<Rightarrow> False | c # cs \<Rightarrow> is_word c)"

text \<open>
  Repetition. A repetition that consumes nothing is not tried again, as in JavaScript;
  every other one consumes a character, so the text that is left bounds their number
  (the second argument, of which only the length is used).
\<close>

fun star_iter :: "(mstate \<Rightarrow> mstate list) \<Rightarrow> 'a list \<Rightarrow> mstate \<Rightarrow> mstate list" where
  "star_iter f [] st = [st]"
| "star_iter f (x # fuel) st =
     concat (map (\<lambda>st'. if ms_pos st < ms_pos st' then star_iter f fuel st' else []) (f st)) @ [st]"

fun lazy_iter :: "(mstate \<Rightarrow> mstate list) \<Rightarrow> 'a list \<Rightarrow> mstate \<Rightarrow> mstate list" where
  "lazy_iter f [] st = [st]"
| "lazy_iter f (x # fuel) st =
     st # concat (map (\<lambda>st'. if ms_pos st < ms_pos st' then lazy_iter f fuel st' else []) (f st))"

primrec rx_run :: "rx \<Rightarrow> mstate \<Rightarrow> mstate list" where
  "rx_run (Chr P) st = (case st of (i, p, rs, g) \<Rightarrow>
       (case rs of [] \<Rightarrow> [] | c # cs \<Rightarrow> if P c then [(Suc i, Some c, cs, g)] else []))"
| "rx_run Eps st = [st]"
| "rx_run (Seq a b) st = concat (map (rx_run b) (rx_run a st))"
| "rx_run (Alt a b) st = rx_run a st @ rx_run b st"
| "rx_run (Star a) st = star_iter (rx_run a) (ms_rest st) st"
| "rx_run (Lazy a) st = lazy_iter (rx_run a) (ms_rest st) st"
| "rx_run (Grp k a) st = map (\<lambda>st'. case st' of (j, q, rs', g') \<Rightarrow>
       (j, q, rs', (k, take (j - ms_pos st) (ms_rest st)) # g')) (rx_run a st)"
| "rx_run Bnd st = (if word_before st \<noteq> word_after st then [st] else [])"
| "rx_run Eol st = (case ms_rest st of [] \<Rightarrow> [st] | c # cs \<Rightarrow> if is_line_term c then [st] else [])"
| "rx_run (NotAhead a) st = (case rx_run a st of [] \<Rightarrow> [st] | m # ms \<Rightarrow> [])"
| "rx_run (Back k) st = (case st of (i, p, rs, g) \<Rightarrow>
       (case map_of g k of None \<Rightarrow> [st]
        | Some t \<Rightarrow> if starts_with rs t
            then [(i + length t, (if t = [] then p else Some (last t)), drop (length t) rs, g)]
            else []))"

definition rx_at :: "rx \<Rightarrow> mstate \<Rightarrow> mstate option" where
  "rx_at r st = (case rx_run r st of [] \<Rightarrow> None | m # ms \<Rightarrow> Some m)"

text \<open>Pattern text without operators, \<open>r+\<close>, \<open>r?\<close>, sequences and alternatives.\<close>

fun lit :: "string \<Rightarrow> rx" where
  "lit [] = Eps"
| "lit (c # cs) = Seq (Chr (\<lambda>x. x = c)) (lit cs)"

definition chr :: "char \<Rightarrow> rx" where
  "chr c = Chr (\<lambda>x. x = c)"

definition Plus :: "rx \<Rightarrow> rx" where
  "Plus r = Seq r (Star r)"

definition Opt :: "rx \<Rightarrow> rx" where
  "Opt r = Alt r Eps"

fun seqs :: "rx list \<Rightarrow> rx" where
  "seqs [] = Eps"
| "seqs (r # rs) = Seq r (seqs rs)"

fun alts :: "rx \<Rightarrow> rx list \<Rightarrow> rx" where
  "alts r [] = r"
| "alts r (r' # rs) = Alt r (alts r' rs)"

text \<open>
  A match object: \<open>m.index\<close>, \<open>m[0]\<close>, and the groups, of which \<open>m[k]\<close> is
  \<open>map_of (m_caps m) k\<close> (\<open>None\<close> is \<open>undefined\<close>).
\<close>

record rmatch =
  m_index :: nat
  m_text :: string
  m_caps :: caps

definition grp :: "rmatch \<Rightarrow> nat \<Rightarrow> string option" where
  "grp m k = map_of (m_caps m) k"

text \<open>\<open>s.match(r)\<close> without flag \<open>g\<close>, and \<open>r.test(s)\<close>: the leftmost match.\<close>

fun rx_find :: "rx \<Rightarrow> nat \<Rightarrow> char option \<Rightarrow> string \<Rightarrow> rmatch option" where
  "rx_find r i p rs =
     (case rx_at r (i, p, rs, []) of
        Some (j, q, rs', g) \<Rightarrow> Some \<lparr>m_index = i, m_text = take (j - i) rs, m_caps = g\<rparr>
      | None \<Rightarrow> (case rs of [] \<Rightarrow> None | c # cs \<Rightarrow> rx_find r (Suc i) (Some c) cs))"

definition rx_match :: "rx \<Rightarrow> string \<Rightarrow> rmatch option" where
  "rx_match r s = rx_find r 0 None s"

definition rx_test :: "rx \<Rightarrow> string \<Rightarrow> bool" where
  "rx_test r s = (rx_match r s \<noteq> None)"

text \<open>
  \<open>s.replace(r, rep)\<close> under flag \<open>g\<close>, with a constant \<open>rep\<close>: after a match the scan
  goes on where the match ended, and one character further when the match was empty.
\<close>

fun replace_from :: "rx \<Rightarrow> string \<Rightarrow> nat \<Rightarrow> char option \<Rightarrow> string \<Rightarrow> string" where
  "replace_from r rep i p rs =
     (case rx_at r (i, p, rs, []) of
        Some (j, q, rs', g) \<Rightarrow>
          if length rs' < length rs then rep @ replace_from r rep j q rs'
          else rep @ (case rs of [] \<Rightarrow> [] | c # cs \<Rightarrow> c # replace_from r rep (Suc i) (Some c) cs)
      | None \<Rightarrow> (case rs of [] \<Rightarrow> [] | c # cs \<Rightarrow> c # replace_from r rep (Suc i) (Some c) cs))"

definition replace_all :: "rx \<Rightarrow> string \<Rightarrow> string \<Rightarrow> string" where
  "replace_all r rep s = replace_from r rep 0 None s"

text \<open>\<open>s.matchAll(r)\<close> and \<open>s.match(r)\<close> under flag \<open>g\<close>: every match, left to right.\<close>

fun matches_from :: "rx \<Rightarrow> nat \<Rightarrow> char option \<Rightarrow> string \<Rightarrow> rmatch list" where
  "matches_from r i p rs =
     (case rx_at r (i, p, rs, []) of
        Some (j, q, rs', g) \<Rightarrow>
          if length rs' < length rs
          then \<lparr>m_index = i, m_text = take (j - i) rs, m_caps = g\<rparr> # matches_from r j q rs'
          else \<lparr>m_index = i, m_text = take (j - i) rs, m_caps = g\<rparr> #
            (case rs of [] \<Rightarrow> [] | c # cs \<Rightarrow> matches_from r (Suc i) (Some c) cs)
      | None \<Rightarrow> (case rs of [] \<Rightarrow> [] | c # cs \<Rightarrow> matches_from r (Suc i) (Some c) cs))"

definition matchAll :: "rx \<Rightarrow> string \<Rightarrow> rmatch list" where
  "matchAll r s = matches_from r 0 None s"

text \<open>
  The loop \<open>while ((m = r.exec(code)) !== null) push(m)\<close> under flag \<open>g\<close>. \<open>exec\<close>
  starts at \<open>lastIndex\<close> and sets it to the end of its match. A match that consumes
  nothing leaves \<open>lastIndex\<close> where it is, so the next \<open>exec\<close> returns the same match and
  the loop never ends: that is the result \<open>None\<close>.
\<close>

fun exec_loop :: "rx \<Rightarrow> nat \<Rightarrow> char option \<Rightarrow> string \<Rightarrow> rmatch list option" where
  "exec_loop r i p rs =
     (case rx_at r (i, p, rs, []) of
        Some (j, q, rs', g) \<Rightarrow>
          if length rs' < length rs
          then map_option ((#) \<lparr>m_index = i, m_text = take (j - i) rs, m_caps = g\<rparr>)
                 (exec_loop r j q rs')
          else None
      | None \<Rightarrow> (case rs of [] \<Rightarrow> Some [] | c # cs \<Rightarrow> exec_loop r (Suc i) (Some c) cs))"

definition execAll :: "rx \<Rightarrow> string \<Rightarrow> rmatch list option" where
  "execAll r s = exec_loop r 0 None s"

section \<open>Sanitizer\<close>

text \<open>
  \<^verbatim>\<open>/\/\*[\s\S]*?\*\//g\<close>, \<^verbatim>\<open>/\/\/.*$/gm\<close>, \<^verbatim>\<open>/#.*$/gm\<close> and
  \<^verbatim>\<open>/(["'`])(?:\\.|(?!\1).)*\1/gm\<close>.
\<close>

definition blockCommentRx :: rx where
  "blockCommentRx = seqs [lit ''/*'', Lazy (Chr (\<lambda>c. True)), lit ''*/'']"

definition lineCommentRx :: rx where
  "lineCommentRx = seqs [lit ''//'', Star (Chr any_char), Eol]"

definition hashCommentRx :: rx where
  "hashCommentRx = seqs [lit ''#'', Star (Chr any_char), Eol]"

definition stringLiteralRx :: rx where
  "stringLiteralRx =
     seqs [Grp 1 (Chr (\<lambda>c. c = CHR 0x22 \<or> c = CHR 0x27 \<or> c = CHR 0x60)),
           Star (Alt (Seq (chr (CHR 0x5C)) (Chr any_char))
                     (Seq (NotAhead (Back 1)) (Chr any_char))),
           Back 1]"

definition stripCommentsAndStrings :: "string \<Rightarrow> string" where
  "stripCommentsAndStrings code0 =
     (let code1 = replace_all blockCommentRx '' '' code0;
          code2 = replace_all lineCommentRx '' '' code1;
          code3 = replace_all hashCommentRx '' '' code2;
          code4 = replace_all stringLiteralRx '' '' code3
      in code4)"

section \<open>Data\<close>

text \<open>
  The objects the source builds: a catalog entry \<open>{name, time, space}\<close>; a loop
  \<open>{type, header, pos}\<close> and, with its depth and kind, \<open>{...lp, depth, iterKind}\<close>; the
  result of the loop analysis; \<open>{name, idx}\<close> and \<open>{name, calls}\<close> of the recursion
  analysis; the verdict. A group that took no part in a match is \<open>undefined\<close>, so a
  field read from a group is an option.
\<close>

record entry =
  r_name :: ustring
  r_time :: ustring
  r_space :: ustring

datatype looptype = For | While | RangeFor

datatype iterkind = Unknown | Log | N

record loop =
  type :: looptype
  header :: "string option"
  pos :: nat

record loopInfo = loop +
  depth :: nat
  iterKind :: iterkind

record loopsInfo =
  loopCount :: nat
  maxDepth :: nat
  maxNestedN :: nat
  logDetected :: bool
  loopInfos :: "loopInfo list"

record fnDecl =
  f_name :: "string option"
  f_idx :: nat

record recfn =
  name :: "string option"
  calls :: nat

record recursionInfo =
  found :: bool
  "functions" :: "recfn list"

text \<open>
  \<open>details\<close> is \<open>{}\<close>, \<open>{matches}\<close> or \<open>{loopsInfo, recursionInfo}\<close>.
\<close>

datatype details =
    NoDetails
  | Matches "ustring list"
  | Structure loopsInfo recursionInfo

record verdict =
  time :: ustring
  timeExplanation :: ustring
  space :: ustring
  spaceExplanation :: ustring
  details :: details

text \<open>
  What a call can do instead of returning: throw (\<open>new RegExp\<close> on a bad pattern, a
  method call on \<open>undefined\<close>) or run forever.
\<close>

datatype error = SyntaxError | TypeError | NoReturn

fun mapE :: "('a \<Rightarrow> error + 'b) \<Rightarrow> 'a list \<Rightarrow> error + 'b list" where
  "mapE f [] = Inr []"
| "mapE f (x # xs) =
     (case f x of Inl e \<Rightarrow> Inl e
      | Inr y \<Rightarrow> (case mapE f xs of Inl e \<Rightarrow> Inl e | Inr ys \<Rightarrow> Inr (y # ys)))"

fun someE :: "('a \<Rightarrow> error + bool) \<Rightarrow> 'a list \<Rightarrow> error + bool" where
  "someE f [] = Inr False"
| "someE f (x # xs) =
     (case f x of Inl e \<Rightarrow> Inl e | Inr b \<Rightarrow> if b then Inr True else someE f xs)"

section \<open>Known algorithm detectors\<close>

definition sp :: rx where
  "sp = Chr is_space"

definition word_rx :: "string \<Rightarrow> rx" where
  "word_rx w = seqs [Bnd, lit w, Bnd]"

definition dash_or_space :: rx where
  "dash_or_space = Chr (\<lambda>c. c = CHR ''-'' \<or> c = CHR '' '')"

text \<open>\<^verbatim>\<open>/\bbfs\s*\(|\bbreadth[- ]first\b/\<close> and \<^verbatim>\<open>/\bdfs\s*\(|\bdepth[- ]first\b/\<close>.\<close>

definition bfsRx :: rx where
  "bfsRx = Alt (seqs [Bnd, lit ''bfs'', Star sp, chr CHR ''(''])
               (seqs [Bnd, lit ''breadth'', dash_or_space, lit ''first'', Bnd])"

definition dfsRx :: rx where
  "dfsRx = Alt (seqs [Bnd, lit ''dfs'', Star sp, chr CHR ''(''])
               (seqs [Bnd, lit ''depth'', dash_or_space, lit ''first'', Bnd])"

text \<open>\<^verbatim>\<open>/return\s+\w+\s*\(/\<close>.\<close>

definition returnCallRx :: rx where
  "returnCallRx = seqs [lit ''return'', Plus sp, Plus (Chr is_word), Star sp, chr CHR ''('']"

text \<open>\<^verbatim>\<open>/\bbellman[- ]?ford\b/\<close> and \<^verbatim>\<open>/\bfloyd[- ]?warshall\b/\<close>.\<close>

definition bellmanFordRx :: rx where
  "bellmanFordRx = seqs [Bnd, lit ''bellman'', Opt dash_or_space, lit ''ford'', Bnd]"

definition floydWarshallRx :: rx where
  "floydWarshallRx = seqs [Bnd, lit ''floyd'', Opt dash_or_space, lit ''warshall'', Bnd]"

text \<open>\<^verbatim>\<open>/\bfib\(|\bfibonacci\b/\<close> and \<^verbatim>\<open>/\bmem|memo\b|\bcache\b|\bdp\b/\<close>.\<close>

definition fibRx :: rx where
  "fibRx = Alt (seqs [Bnd, lit ''fib('']) (word_rx ''fibonacci'')"

definition memoRx :: rx where
  "memoRx = alts (seqs [Bnd, lit ''mem'']) [seqs [lit ''memo'', Bnd], word_rx ''cache'', word_rx ''dp'']"

text \<open>\<^verbatim>\<open>/\bdisjoint\b|\bunion[- ]find\b|\bunite\b/\<close>.\<close>

definition unionFindRx :: rx where
  "unionFindRx = alts (word_rx ''disjoint'')
     [seqs [Bnd, lit ''union'', dash_or_space, lit ''find'', Bnd], word_rx ''unite'']"

definition push_if :: "bool \<Rightarrow> entry \<Rightarrow> entry list \<Rightarrow> entry list" where
  "push_if b e results = (if b then results @ [e] else results)"

text \<open>
  The statements of \<open>detectKnownAlgorithms\<close> that push to \<open>results\<close>, in the order of the
  source; \<open>c\<close> is \<open>lower(code)\<close> and \<open>js_includes c\<close> is \<open>mention\<close>.
\<close>

definition catalog :: "string \<Rightarrow> string \<Rightarrow> (entry list \<Rightarrow> entry list) list" where
  "catalog code c =
    [push_if (js_includes c ''merge sort'' \<or> rx_test (word_rx ''mergesort'') c)
       \<lparr>r_name = str ''Merge Sort'', r_time = str ''O(n log n)'', r_space = str ''O(n)''\<rparr>,
     push_if (js_includes c ''quick sort'' \<or> rx_test (word_rx ''quicksort'') c)
       \<lparr>r_name = str ''Quick Sort'',
        r_time = str ''O(n log n) average, O(n'' @ [(CHR 0x00, CHR 0xB2)] @ str '') worst'',
        r_space = str ''O(log n) average''\<rparr>,
     push_if (js_includes c ''heap sort'' \<or> rx_test (word_rx ''heapsort'') c)
       \<lparr>r_name = str ''Heap Sort'', r_time = str ''O(n log n)'', r_space = str ''O(1)''\<rparr>,
     push_if (js_includes c ''bubble sort'')
       \<lparr>r_name = str ''Bubble Sort'', r_time = str ''O(n'' @ [(CHR 0x00, CHR 0xB2)] @ str '')'', r_space = str ''O(1)''\<rparr>,
     push_if (js_includes c ''insertion sort'')
       \<lparr>r_name = str ''Insertion Sort'', r_time = str ''O(n'' @ [(CHR 0x00, CHR 0xB2)] @ str '')'', r_space = str ''O(1)''\<rparr>,
     push_if (js_includes c ''selection sort'')
       \<lparr>r_name = str ''Selection Sort'', r_time = str ''O(n'' @ [(CHR 0x00, CHR 0xB2)] @ str '')'', r_space = str ''O(1)''\<rparr>,
     push_if (js_includes c ''counting sort'')
       \<lparr>r_name = str ''Counting Sort'', r_time = str ''O(n + k)'', r_space = str ''O(k)''\<rparr>,
     push_if (js_includes c ''radix sort'')
       \<lparr>r_name = str ''Radix Sort'', r_time = str ''O(nk)'', r_space = str ''O(n + k)''\<rparr>,
     push_if (js_includes c ''binary search'' \<or> rx_test (word_rx ''binarysearch'') c)
       \<lparr>r_name = str ''Binary Search'', r_time = str ''O(log n)'', r_space = str ''O(1)''\<rparr>,
     push_if (js_includes c ''linear search'' \<or> js_includes c ''sequential search'')
       \<lparr>r_name = str ''Linear Search'', r_time = str ''O(n)'', r_space = str ''O(1)''\<rparr>,
     push_if (rx_test bfsRx c \<or>
              (js_includes c ''queue'' \<and> (js_includes c ''visited'' \<or> js_includes c ''adj'')))
       \<lparr>r_name = str ''BFS'', r_time = str ''O(V + E)'', r_space = str ''O(V)''\<rparr>,
     push_if (rx_test dfsRx c \<or>
              (js_includes c ''visited'' \<and> (js_includes c ''stack'' \<or> rx_test returnCallRx code)))
       \<lparr>r_name = str ''DFS'', r_time = str ''O(V + E)'', r_space = str ''O(V)''\<rparr>,
     push_if (js_includes c ''dijkstra'')
       \<lparr>r_name = str (''Dijkstra'' @ [CHR 0x27] @ ''s algorithm''),
        r_time = str ''O((V + E) log V)'', r_space = str ''O(V + E)''\<rparr>,
     push_if (rx_test bellmanFordRx c \<or> js_includes c ''bellman ford'')
       \<lparr>r_name = str ''Bellman'' @ [(CHR 0x20, CHR 0x13)] @ str ''Ford'',
        r_time = str ''O(V '' @ [(CHR 0x00, CHR 0xD7)] @ str '' E)'', r_space = str ''O(V)''\<rparr>,
     push_if (js_includes c ''kruskal'')
       \<lparr>r_name = str (''Kruskal'' @ [CHR 0x27] @ ''s algorithm''),
        r_time = str ''O(E log E)'', r_space = str ''O(V + E)''\<rparr>,
     push_if (js_includes c ''prim'')
       \<lparr>r_name = str (''Prim'' @ [CHR 0x27] @ ''s algorithm''),
        r_time = str ''O(E log V)'', r_space = str ''O(V + E)''\<rparr>,
     push_if (rx_test floydWarshallRx c \<or> js_includes c ''floyd warshall'')
       \<lparr>r_name = str ''Floyd'' @ [(CHR 0x20, CHR 0x13)] @ str ''Warshall'',
        r_time = str ''O(V'' @ [(CHR 0x00, CHR 0xB3)] @ str '')'', r_space = str ''O(V'' @ [(CHR 0x00, CHR 0xB2)] @ str '')''\<rparr>,
     (\<lambda>results.
        if js_includes c ''naive fibonacci'' \<or> rx_test fibRx c then
          if rx_test memoRx c
          then results @ [\<lparr>r_name = str ''Memoized Fibonacci (DP)'', r_time = str ''O(n)'',
                            r_space = str ''O(n)''\<rparr>]
          else results @ [\<lparr>r_name = str ''Naive Recursive Fibonacci'', r_time = str ''O(2^n)'',
                            r_space = str ''O(n)''\<rparr>]
        else results),
     (\<lambda>results.
        if rx_test unionFindRx c then
          if \<not> list_ex (\<lambda>r. js_includes (lower_u (r_name r)) (str ''kruskal'')) results
          then results @ [\<lparr>r_name = str ''Union-Find usage'',
                 r_time = str ''Usually O('' @ [(CHR 0x03, CHR 0xB1)] @ str ''(n) '' @ [(CHR 0x00, CHR 0xB7)] @
                          str '' (E log E)) for Kruskal context'',
                 r_space = str ''O(V)''\<rparr>]
          else results
        else results),
     push_if (rx_test (word_rx ''matrix chain'') c \<or> rx_test (word_rx ''matrixchain'') c)
       \<lparr>r_name = str ''Matrix Chain Multiplication (DP)'',
        r_time = str ''O(n'' @ [(CHR 0x00, CHR 0xB3)] @ str '')'', r_space = str ''O(n'' @ [(CHR 0x00, CHR 0xB2)] @ str '')''\<rparr>,
     push_if (rx_test (word_rx ''knapsack'') c)
       \<lparr>r_name = str ''Knapsack (DP typical)'', r_time = str ''O(nW)'',
        r_space = str ''O(W) or O(nW)''\<rparr>]"

text \<open>The array \<open>results\<close> after the first \<open>k\<close> of these statements.\<close>

definition resultsAfter :: "nat \<Rightarrow> string \<Rightarrow> entry list" where
  "resultsAfter k code = fold (\<lambda>step results. step results) (take k (catalog code (lower code))) []"

definition knownResults :: "string \<Rightarrow> entry list" where
  "knownResults code = resultsAfter (length (catalog code (lower code))) code"

definition detectKnownAlgorithms :: "string \<Rightarrow> verdict option" where
  "detectKnownAlgorithms code =
     (case knownResults code of
        [] \<Rightarrow> None
      | primary # others \<Rightarrow>
          Some \<lparr>time = r_time primary,
                timeExplanation = str ''Detected known algorithm or strong hint: '' @ r_name primary @ str ''.'',
                space = r_space primary,
                spaceExplanation = r_space primary,
                details = Matches (map r_name (primary # others))\<rparr>)"

section \<open>Structural analysis: loops\<close>

text \<open>
  \<^verbatim>\<open>/for\s*\(([^)]*)\)/g\<close>, \<^verbatim>\<open>/while\s*\(([^)]*)\)/g\<close> and
  \<^verbatim>\<open>/for\s*\([\w\s,]*:\s*[^)]*\)/g\<close>.
\<close>

definition not_rparen :: rx where
  "not_rparen = Chr (\<lambda>c. c \<noteq> CHR '')'')"

definition forRegex :: rx where
  "forRegex = seqs [lit ''for'', Star sp, chr CHR ''('', Grp 1 (Star not_rparen), chr CHR '')'']"

definition whileRegex :: rx where
  "whileRegex = seqs [lit ''while'', Star sp, chr CHR ''('', Grp 1 (Star not_rparen), chr CHR '')'']"

definition rangeForRegex :: rx where
  "rangeForRegex =
     seqs [lit ''for'', Star sp, chr CHR ''('',
           Star (Chr (\<lambda>c. is_word c \<or> is_space c \<or> c = CHR '','')),
           chr CHR '':'', Star sp, Star not_rparen, chr CHR '')'']"

text \<open>\<^verbatim>\<open>[A-Za-z_]\w*\<close> and \<^verbatim>\<open>/\b([A-Za-z_]\w*)\b/g\<close>.\<close>

definition ident :: rx where
  "ident = Seq (Chr is_alpha_us) (Star (Chr is_word))"

definition identRx :: rx where
  "identRx = seqs [Bnd, Grp 1 ident, Bnd]"

text \<open>
  \<^verbatim>\<open>/(\w+)\s*=\s*\(\s*([A-Za-z_]\w*)\s*\+\s*([A-Za-z_]\w*)\s*\)\s*\/\s*2\s*;/\<close>.
\<close>

definition midCalcRegex :: rx where
  "midCalcRegex =
     seqs [Grp 1 (Plus (Chr is_word)), Star sp, chr CHR ''='', Star sp, chr CHR ''('', Star sp,
           Grp 2 ident, Star sp, chr CHR ''+'', Star sp, Grp 3 ident, Star sp, chr CHR '')'',
           Star sp, chr CHR ''/'', Star sp, chr CHR ''2'', Star sp, chr CHR '';'']"

text \<open>
  A value in a template literal: \<open>undefined\<close> reads as the text \<open>undefined\<close>.
\<close>

definition js_string :: "string option \<Rightarrow> string" where
  "js_string v = (case v of None \<Rightarrow> ''undefined'' | Some s \<Rightarrow> s)"

text \<open>
  A value spliced into the source text of a pattern that \<open>new RegExp\<close> compiles. A
  string of word characters stands in the pattern for itself. Any other string would
  bring pattern syntax of its own, on which \<open>new RegExp\<close> can throw; the model takes
  the error as thrown there.
\<close>

definition splice :: "string option \<Rightarrow> error + rx" where
  "splice v = (if list_all is_word (js_string v) then Inr (lit (js_string v)) else Inl SyntaxError)"

text \<open>
  \<^verbatim>\<open>`\\b${leftVar}\\b\\s*=\\s*${midVar}\\s*\\+\\s*1`\<close> and
  \<^verbatim>\<open>`\\b${rightVar}\\b\\s*=\\s*${midVar}\\s*-\\s*1`\<close>.
\<close>

definition updateLeftRx :: "rx \<Rightarrow> rx \<Rightarrow> rx" where
  "updateLeftRx leftVar midVar =
     seqs [Bnd, leftVar, Bnd, Star sp, chr CHR ''='', Star sp, midVar, Star sp, chr CHR ''+'',
           Star sp, chr CHR ''1'']"

definition updateRightRx :: "rx \<Rightarrow> rx \<Rightarrow> rx" where
  "updateRightRx rightVar midVar =
     seqs [Bnd, rightVar, Bnd, Star sp, chr CHR ''='', Star sp, midVar, Star sp, chr CHR ''-'',
           Star sp, chr CHR ''1'']"

text \<open>
  \<^verbatim>\<open>`\\b${condVar}\\s*=\\s*${condVar}\\s*\\/\\s*2\\b`\<close>,
  \<^verbatim>\<open>`\\b${condVar}\\s*>>=\\s*1\\b`\<close>,
  \<^verbatim>\<open>`\\b${condVar}\\s*=\\s*Math\\.floor\\(\\s*${condVar}\\s*\\/\\s*2\\s*\\)`\<close> and the
  same with \<open>ceil\<close>.
\<close>

definition divBy2Rxs :: "rx \<Rightarrow> rx list" where
  "divBy2Rxs condVar =
     [seqs [Bnd, condVar, Star sp, chr CHR ''='', Star sp, condVar, Star sp, chr CHR ''/'', Star sp,
            chr CHR ''2'', Bnd],
      seqs [Bnd, condVar, Star sp, lit ''>>='', Star sp, chr CHR ''1'', Bnd],
      seqs [Bnd, condVar, Star sp, chr CHR ''='', Star sp, lit ''Math.floor('', Star sp, condVar,
            Star sp, chr CHR ''/'', Star sp, chr CHR ''2'', Star sp, chr CHR '')''],
      seqs [Bnd, condVar, Star sp, chr CHR ''='', Star sp, lit ''Math.ceil('', Star sp, condVar,
            Star sp, chr CHR ''/'', Star sp, chr CHR ''2'', Star sp, chr CHR '')'']]"

text \<open>
  \<^verbatim>\<open>/\/= *2|\/2\b|\*\= *2|<<=|>>=/\<close>, \<^verbatim>\<open>/:/\<close>, \<^verbatim>\<open>/length|size|len/\<close> and
  \<^verbatim>\<open>/(<|<=|>|>=).*[\+\-]{2}|(<|<=|>|>=).*\+\+|(<|<=|>|>=).*\-\-/\<close>.
\<close>

definition headerLogRx :: rx where
  "headerLogRx =
     alts (seqs [lit ''/='', Star (chr CHR '' ''), chr CHR ''2''])
       [seqs [lit ''/2'', Bnd], seqs [lit ''*='', Star (chr CHR '' ''), chr CHR ''2''],
        lit ''<<='', lit ''>>='']"

definition colonRx :: rx where
  "colonRx = chr CHR '':''"

definition lengthRx :: rx where
  "lengthRx = alts (lit ''length'') [lit ''size'', lit ''len'']"

definition cmpRx :: rx where
  "cmpRx = alts (lit ''<'') [lit ''<='', lit ''>'', lit ''>='']"

definition plusMinus :: rx where
  "plusMinus = Chr (\<lambda>c. c = CHR ''+'' \<or> c = CHR ''-'')"

definition countingRx :: rx where
  "countingRx =
     alts (seqs [Grp 1 cmpRx, Star (Chr any_char), plusMinus, plusMinus])
       [seqs [Grp 2 cmpRx, Star (Chr any_char), lit ''++''],
        seqs [Grp 3 cmpRx, Star (Chr any_char), lit ''--'']]"

text \<open>
  The scan \<open>for (let i = openBracePos; i < code.length; i++)\<close> of a loop body: the index
  at which \<open>depthBraces\<close> is back at zero, if there is one.
\<close>

fun scanLoopBody :: "string \<Rightarrow> int \<Rightarrow> nat \<Rightarrow> nat option" where
  "scanLoopBody [] depthBraces i = None"
| "scanLoopBody (c # cs) depthBraces i =
     (let d = (if c = CHR ''{'' then depthBraces + 1
               else if c = CHR ''}'' then depthBraces - 1 else depthBraces)
      in if d = 0 then Some i else scanLoopBody cs d (Suc i))"

definition loopBody :: "string \<Rightarrow> nat \<Rightarrow> string" where
  "loopBody code start =
     (case indexOf code CHR ''{'' start of
        None \<Rightarrow> []
      | Some openBracePos \<Rightarrow>
          (case scanLoopBody (drop openBracePos code) 0 openBracePos of
             None \<Rightarrow> []
           | Some i \<Rightarrow> slice (Suc openBracePos) i code))"

definition isBinarySearchOf :: "string option list \<Rightarrow> string \<Rightarrow> error + bool" where
  "isBinarySearchOf varsInCond body =
     (case rx_match midCalcRegex body of
        None \<Rightarrow> Inr False
      | Some midMatch \<Rightarrow>
          (let midVar = grp midMatch 1; leftVar = grp midMatch 2; rightVar = grp midMatch 3 in
           if List.member varsInCond leftVar \<and> List.member varsInCond rightVar then
             (case splice leftVar of Inl e \<Rightarrow> Inl e | Inr l \<Rightarrow>
              case splice midVar of Inl e \<Rightarrow> Inl e | Inr m \<Rightarrow>
              case splice rightVar of Inl e \<Rightarrow> Inl e | Inr r \<Rightarrow>
                Inr (rx_test (updateLeftRx l m) body \<or> rx_test (updateRightRx r m) body))
           else Inr False))"

text \<open>
  The kind after the tests on the body: \<open>log\<close> for the binary search idiom, else
  \<open>log\<close> when \<open>condVar\<close> is halved in the body, else still \<open>unknown\<close>.
\<close>

definition bodyKind :: "string option list \<Rightarrow> string \<Rightarrow> error + iterkind" where
  "bodyKind varsInCond body =
     (let condVar = (case varsInCond of [] \<Rightarrow> None | v # vs \<Rightarrow> v) in
      case isBinarySearchOf varsInCond body of
        Inl e \<Rightarrow> Inl e
      | Inr isBinarySearch \<Rightarrow>
          if isBinarySearch then Inr Log
          else if condVar \<noteq> None \<and> condVar \<noteq> Some [] then
            (case splice condVar of
               Inl e \<Rightarrow> Inl e
             | Inr v \<Rightarrow> Inr (if list_ex (\<lambda>re. rx_test re body) (divBy2Rxs v) then Log else Unknown))
          else Inr Unknown)"

text \<open>The tests on the header, made when the kind is not \<open>log\<close> yet.\<close>

definition headerKind :: "string \<Rightarrow> iterkind \<Rightarrow> iterkind" where
  "headerKind hdr k =
     (if k \<noteq> Log then
        if rx_test headerLogRx hdr then Log
        else if rx_test colonRx hdr then N
        else if rx_test lengthRx (lower hdr) then N
        else if rx_test countingRx hdr then N
        else k
      else k)"

text \<open>The function mapped over \<open>loops\<close>.\<close>

definition loopInfoOf :: "string \<Rightarrow> loop \<Rightarrow> error + loopInfo" where
  "loopInfoOf code lp =
     (let start = pos lp;
          before = slice 0 start code;
          openBefore = length (matchAll (chr CHR ''{'') before);
          closeBefore = length (matchAll (chr CHR ''}'') before);
          d = nat (max 0 (int openBefore - int closeBefore));
          hdr = (case header lp of None \<Rightarrow> [] | Some h \<Rightarrow> h);
          varsInCond = map (\<lambda>x. grp x 1) (matchAll identRx hdr);
          body = loopBody code (pos lp)
      in case bodyKind varsInCond body of
           Inl e \<Rightarrow> Inl e
         | Inr k \<Rightarrow> Inr \<lparr>type = type lp, header = header lp, pos = pos lp,
                          depth = d, iterKind = headerKind hdr k\<rparr>)"

text \<open>\<open>nLoopsAtDepth\<close>, \<open>maxDepth\<close> and \<open>maxNestedN\<close>.\<close>

definition count_at :: "(nat \<rightharpoonup> nat) \<Rightarrow> nat \<Rightarrow> nat" where
  "count_at m d = (case m d of None \<Rightarrow> 0 | Some v \<Rightarrow> v)"

definition nLoopsAtDepthOf :: "loopInfo list \<Rightarrow> (nat \<rightharpoonup> nat)" where
  "nLoopsAtDepthOf lis =
     fold (\<lambda>li m. if iterKind li = N then m(depth li \<mapsto> count_at m (depth li) + 1) else m)
       lis Map.empty"

definition maxDepthOf :: "loopInfo list \<Rightarrow> nat" where
  "maxDepthOf lis = fold (\<lambda>b a. max a (depth b)) lis 0"

definition maxNestedNOf :: "(nat \<rightharpoonup> nat) \<Rightarrow> nat \<Rightarrow> nat" where
  "maxNestedNOf m md = fold (\<lambda>d mx. if count_at m d > mx then count_at m d else mx) [0..<Suc md] 0"

definition detectLoopsAndNesting :: "string \<Rightarrow> error + loopsInfo" where
  "detectLoopsAndNesting code =
     (case execAll forRegex code of None \<Rightarrow> Inl NoReturn | Some fors \<Rightarrow>
      case execAll whileRegex code of None \<Rightarrow> Inl NoReturn | Some whiles \<Rightarrow>
      case execAll rangeForRegex code of None \<Rightarrow> Inl NoReturn | Some rangeFors \<Rightarrow>
        (let loops =
               map (\<lambda>m. \<lparr>type = For, header = grp m 1, pos = m_index m\<rparr>) fors @
               map (\<lambda>m. \<lparr>type = While, header = grp m 1, pos = m_index m\<rparr>) whiles @
               map (\<lambda>m. \<lparr>type = RangeFor, header = Some (m_text m), pos = m_index m\<rparr>) rangeFors
         in case mapE (loopInfoOf code) loops of
              Inl e \<Rightarrow> Inl e
            | Inr lis \<Rightarrow>
                Inr \<lparr>loopCount = length loops,
                     maxDepth = maxDepthOf lis,
                     maxNestedN = maxNestedNOf (nLoopsAtDepthOf lis) (maxDepthOf lis),
                     logDetected = list_ex (\<lambda>l. iterKind l = Log) lis,
                     loopInfos = lis\<rparr>))"

section \<open>Structural analysis: recursion\<close>

text \<open>
  \<^verbatim>\<open>/function\s+([A-Za-z_]\w*)\s*\(/g\<close>, \<^verbatim>\<open>/def\s+([A-Za-z_]\w*)\s*\(/g\<close> and
  \<^verbatim>\<open>/(?:[A-Za-z_][\w:<>\s\*&]+)\s+([A-Za-z_]\w*)\s*\([^)]*\)\s*\{/g\<close>.
\<close>

definition jsFunc :: rx where
  "jsFunc = seqs [lit ''function'', Plus sp, Grp 1 ident, Star sp, chr CHR ''('']"

definition pyDef :: rx where
  "pyDef = seqs [lit ''def'', Plus sp, Grp 1 ident, Star sp, chr CHR ''('']"

definition cStyle :: rx where
  "cStyle =
     seqs [Seq (Chr is_alpha_us)
             (Plus (Chr (\<lambda>c. is_word c \<or> c = CHR '':'' \<or> c = CHR ''<'' \<or> c = CHR ''>'' \<or>
                              is_space c \<or> c = CHR ''*'' \<or> c = CHR ''&''))),
           Plus sp, Grp 1 ident, Star sp, chr CHR ''('', Star not_rparen, chr CHR '')'',
           Star sp, chr CHR ''{'']"

text \<open>\<^verbatim>\<open>new RegExp('\\b' + f.name + '\\s*\\(', 'g')\<close>.\<close>

definition callRx :: "rx \<Rightarrow> rx" where
  "callRx fname = seqs [Bnd, fname, Star sp, chr CHR ''('']"

text \<open>
  The scan for the brace that closes a function body: the index \<open>close\<close>, if the scan
  sets it.
\<close>

fun scanClose :: "string \<Rightarrow> int \<Rightarrow> nat \<Rightarrow> nat option" where
  "scanClose [] d i = None"
| "scanClose (c # cs) d i =
     (if c = CHR ''{'' then scanClose cs (d + 1) (Suc i)
      else if c = CHR ''}'' then (if d - 1 = 0 then Some i else scanClose cs (d - 1) (Suc i))
      else scanClose cs d (Suc i))"

text \<open>The body of a declared function; \<open>None\<close> where the source says \<open>continue\<close>.\<close>

definition fnBody :: "string \<Rightarrow> nat \<Rightarrow> string option" where
  "fnBody code idx =
     (case indexOf code CHR ''{'' idx of
        None \<Rightarrow> None
      | Some opn \<Rightarrow>
          (case scanClose (drop opn code) 0 opn of
             None \<Rightarrow> None
           | Some close \<Rightarrow> Some (slice (Suc opn) close code)))"

text \<open>The loop \<open>for (const f of fnDecls)\<close>: the array \<open>recursion\<close>.\<close>

fun recursionOf :: "string \<Rightarrow> fnDecl list \<Rightarrow> error + recfn list" where
  "recursionOf code [] = Inr []"
| "recursionOf code (f # fs) =
     (case fnBody code (f_idx f) of
        None \<Rightarrow> recursionOf code fs
      | Some body \<Rightarrow>
          (case splice (f_name f) of
             Inl e \<Rightarrow> Inl e
           | Inr fname \<Rightarrow>
               (let n = length (matchAll (callRx fname) body) in
                case recursionOf code fs of
                  Inl e \<Rightarrow> Inl e
                | Inr recursion \<Rightarrow>
                    Inr (if n > 0 then \<lparr>name = f_name f, calls = n\<rparr> # recursion else recursion))))"

definition detectRecursion :: "string \<Rightarrow> error + recursionInfo" where
  "detectRecursion code =
     (case execAll jsFunc code of None \<Rightarrow> Inl NoReturn | Some js \<Rightarrow>
      case execAll pyDef code of None \<Rightarrow> Inl NoReturn | Some py \<Rightarrow>
      case execAll cStyle code of None \<Rightarrow> Inl NoReturn | Some cs \<Rightarrow>
        (let fnDecls = map (\<lambda>m. \<lparr>f_name = grp m 1, f_idx = m_index m\<rparr>) (js @ py @ cs) in
         case recursionOf code fnDecls of
           Inl e \<Rightarrow> Inl e
         | Inr recursion \<Rightarrow> Inr \<lparr>found = length recursion > 0, functions = recursion\<rparr>))"

section \<open>Main analyzer\<close>

text \<open>
  \<open>hasNestedSameArrayLoop\<close>; \<open>outer.header.toLowerCase()\<close> throws when the header is
  \<open>undefined\<close>.
\<close>

definition hasNestedSameArrayLoop :: "loopInfo list \<Rightarrow> error + bool" where
  "hasNestedSameArrayLoop lis =
     someE (\<lambda>outer.
       someE (\<lambda>inner.
         if depth inner = depth outer + 1 \<and> type inner = For \<and> type outer = For then
           (case header outer of
              None \<Rightarrow> Inl TypeError
            | Some ho \<Rightarrow>
                if rx_test lengthRx (lower ho) then
                  (case header inner of
                     None \<Rightarrow> Inl TypeError
                   | Some hi \<Rightarrow> Inr (rx_test lengthRx (lower hi)))
                else Inr False)
         else Inr False) lis) lis"

definition analyzeComplexity :: "string \<Rightarrow> error + verdict" where
  "analyzeComplexity rawCode =
     (if rawCode = [] \<or> trim rawCode = [] then
        Inr \<lparr>time = str ''O(1)'',
             timeExplanation = str ''Empty or trivial code.'',
             space = str ''O(1)'',
             spaceExplanation = str ''No allocations detected.'',
             details = NoDetails\<rparr>
      else
        let cleaned = stripCommentsAndStrings rawCode in
        case detectKnownAlgorithms cleaned of
          Some known \<Rightarrow>
            Inr \<lparr>time = time known,
                 timeExplanation = timeExplanation known,
                 space = space known,
                 spaceExplanation =
                   (if spaceExplanation known = [] then space known else spaceExplanation known),
                 details = details known\<rparr>
        | None \<Rightarrow>
           (case detectLoopsAndNesting cleaned of Inl e \<Rightarrow> Inl e | Inr loopsInfo \<Rightarrow>
            case detectRecursion cleaned of Inl e \<Rightarrow> Inl e | Inr recursionInfo \<Rightarrow>
              if found recursionInfo then
                if list_ex (\<lambda>f. calls f > 1) (functions recursionInfo) then
                  Inr \<lparr>time = str ''O(2^n) (possible exponential recursive branching)'',
                       timeExplanation = str ''Recursion with multiple recursive calls detected '' @
                         [(CHR 0x20, CHR 0x14)] @ str '' likely exponential.'',
                       space = str ''O(n) (recursion stack)'',
                       spaceExplanation = str ''Recursion stack grows with depth.'',
                       details = Structure loopsInfo recursionInfo\<rparr>
                else if loopCount loopsInfo > 0 then
                  Inr \<lparr>time = str ''O(n log n) or O(n * (loop cost))'',
                       timeExplanation = str ''Single recursion detected together with loops '' @
                         [(CHR 0x20, CHR 0x14)] @ str '' heuristic estimate O(n log n).'',
                       space = str ''O(n + additional)'',
                       spaceExplanation = str ''Recursion stack + container usage.'',
                       details = Structure loopsInfo recursionInfo\<rparr>
                else
                  Inr \<lparr>time = str ''O(n) (single recursion)'',
                       timeExplanation = str ''Single recursion detected '' @ [(CHR 0x20, CHR 0x14)] @
                         str '' typically linear.'',
                       space = str ''O(n)'',
                       spaceExplanation = str ''Recursion stack.'',
                       details = Structure loopsInfo recursionInfo\<rparr>
              else if loopCount loopsInfo > 0 then
                if logDetected loopsInfo then
                  if maxNestedN loopsInfo = 0 then
                    Inr \<lparr>time = str ''O(log n)'',
                         timeExplanation =
                           str ''Detected logarithmic loop pattern (divide-by-two behavior).'',
                         space = str ''O(n)'',
                         spaceExplanation = str ''Output array grows with input size.'',
                         details = Structure loopsInfo recursionInfo\<rparr>
                  else
                    Inr \<lparr>time = str ''O(n^'' @ digits (maxNestedN loopsInfo) @ str '' log n)'',
                         timeExplanation = str ''Detected '' @ digits (maxNestedN loopsInfo) @
                           str '' nested loops with logarithmic behavior.'',
                         space = str ''O(n)'',
                         spaceExplanation = str ''Output array grows with input size.'',
                         details = Structure loopsInfo recursionInfo\<rparr>
                else
                  (case hasNestedSameArrayLoop (loopInfos loopsInfo) of
                     Inl e \<Rightarrow> Inl e
                   | Inr nested \<Rightarrow>
                       if nested then
                         Inr \<lparr>time = str ''O(n'' @ [(CHR 0x00, CHR 0xB2)] @ str '')'',
                              timeExplanation =
                                str ''Detected two nested loops iterating over same array.'',
                              space = str ''O(n)'',
                              spaceExplanation = str ''Output array grows with input size.'',
                              details = Structure loopsInfo recursionInfo\<rparr>
                       else if maxNestedN loopsInfo \<ge> 2 then
                         Inr \<lparr>time = str ''O(n^'' @ digits (maxNestedN loopsInfo) @ str '')'',
                              timeExplanation = str ''Detected '' @ digits (maxNestedN loopsInfo) @
                                str '' nested loops iterating over input size.'',
                              space = str ''O(n)'',
                              spaceExplanation = str ''Output array grows with input size.'',
                              details = Structure loopsInfo recursionInfo\<rparr>
                       else if maxNestedN loopsInfo = 1 then
                         Inr \<lparr>time = str ''O(n)'',
                              timeExplanation =
                                str ''Detected single loop iterating over input size.'',
                              space = str ''O(n)'',
                              spaceExplanation = str ''Output array grows with input size.'',
                              details = Structure loopsInfo recursionInfo\<rparr>
                       else
                         Inr \<lparr>time = str ''O(1)'',
                              timeExplanation = str ''No loops or recursion detected (heuristic).'',
                              space = str ''O(n)'',
                              spaceExplanation = str ''Output array grows with input size.'',
                              details = Structure loopsInfo recursionInfo\<rparr>)
              else
                Inr \<lparr>time = str ''O(1)'',
                     timeExplanation = str ''No loops or recursion detected (heuristic).'',
                     space = str ''O(1)'',
                     spaceExplanation = str ''No obvious dynamic allocations detected.'',
                     details = Structure loopsInfo recursionInfo\<rparr>))"

section \<open>Notions used to reason about the patterns\<close>

text \<open>
  \<open>adv st st'\<close>: the place \<open>st'\<close> lies in the same text as \<open>st\<close>, some characters
  further on. \<open>consumes r\<close>: by its shape, \<open>r\<close> cannot match the empty text.
\<close>

definition adv :: "mstate \<Rightarrow> mstate \<Rightarrow> bool" where
  "adv st st' = (\<exists>t. ms_rest st = t @ ms_rest st' \<and> ms_pos st' = ms_pos st + length t)"

primrec consumes :: "rx \<Rightarrow> bool" where
  "consumes (Chr P) = True"
| "consumes Eps = False"
| "consumes (Seq a b) = (consumes a \<or> consumes b)"
| "consumes (Alt a b) = (consumes a \<and> consumes b)"
| "consumes (Star a) = False"
| "consumes (Lazy a) = False"
| "consumes (Grp k a) = consumes a"
| "consumes Bnd = False"
| "consumes Eol = False"
| "consumes (NotAhead a) = False"
| "consumes (Back k) = False"

fun ms_caps :: "mstate \<Rightarrow> caps" where
  "ms_caps (i, p, rs, g) = g"

definition eaten :: "mstate \<Rightarrow> mstate \<Rightarrow> string" where
  "eaten st st' = take (ms_pos st' - ms_pos st) (ms_rest st)"

primrec classes_within :: "(char \<Rightarrow> bool) \<Rightarrow> rx \<Rightarrow> bool" where
  "classes_within Q (Chr P) = (\<forall>c. P c \<longrightarrow> Q c)"
| "classes_within Q Eps = True"
| "classes_within Q (Seq a b) = (classes_within Q a \<and> classes_within Q b)"
| "classes_within Q (Alt a b) = (classes_within Q a \<and> classes_within Q b)"
| "classes_within Q (Star a) = classes_within Q a"
| "classes_within Q (Lazy a) = classes_within Q a"
| "classes_within Q (Grp k a) = classes_within Q a"
| "classes_within Q Bnd = True"
| "classes_within Q Eol = True"
| "classes_within Q (NotAhead a) = True"
| "classes_within Q (Back k) = False"

primrec wordgroups :: "rx \<Rightarrow> bool" where
  "wordgroups (Chr P) = True"
| "wordgroups Eps = True"
| "wordgroups (Seq a b) = (wordgroups a \<and> wordgroups b)"
| "wordgroups (Alt a b) = (wordgroups a \<and> wordgroups b)"
| "wordgroups (Star a) = wordgroups a"
| "wordgroups (Lazy a) = wordgroups a"
| "wordgroups (Grp k a) = (classes_within is_word a \<and> wordgroups a)"
| "wordgroups Bnd = True"
| "wordgroups Eol = True"
| "wordgroups (NotAhead a) = True"
| "wordgroups (Back k) = True"

definition wordcaps :: "caps \<Rightarrow> bool" where
  "wordcaps g = list_all (\<lambda>(k, t). list_all is_word t) g"

primrec sets_grp :: "nat \<Rightarrow> rx \<Rightarrow> bool" where
  "sets_grp k (Chr P) = False"
| "sets_grp k Eps = False"
| "sets_grp k (Seq a b) = (sets_grp k a \<or> sets_grp k b)"
| "sets_grp k (Alt a b) = (sets_grp k a \<and> sets_grp k b)"
| "sets_grp k (Star a) = False"
| "sets_grp k (Lazy a) = False"
| "sets_grp k (Grp k' a) = (k' = k \<or> sets_grp k a)"
| "sets_grp k Bnd = False"
| "sets_grp k Eol = False"
| "sets_grp k (NotAhead a) = False"
| "sets_grp k (Back k') = False"

primrec zero_width :: "rx \<Rightarrow> bool" where
  "zero_width (Chr P) = False"
| "zero_width Eps = True"
| "zero_width (Seq a b) = (zero_width a \<and> zero_width b)"
| "zero_width (Alt a b) = (zero_width a \<and> zero_width b)"
| "zero_width (Star a) = False"
| "zero_width (Lazy a) = False"
| "zero_width (Grp k a) = False"
| "zero_width Bnd = True"
| "zero_width Eol = True"
| "zero_width (NotAhead a) = True"
| "zero_width (Back k) = False"

primrec first_not :: "(char \<Rightarrow> bool) \<Rightarrow> rx \<Rightarrow> bool" where
  "first_not Q (Chr P) = (\<forall>c. P c \<longrightarrow> \<not> Q c)"
| "first_not Q Eps = False"
| "first_not Q (Seq a b) = (first_not Q a \<or> (zero_width a \<and> first_not Q b))"
| "first_not Q (Alt a b) = (first_not Q a \<and> first_not Q b)"
| "first_not Q (Star a) = False"
| "first_not Q (Lazy a) = False"
| "first_not Q (Grp k a) = first_not Q a"
| "first_not Q Bnd = False"
| "first_not Q Eol = False"
| "first_not Q (NotAhead a) = False"
| "first_not Q (Back k) = False"

text \<open>
  \<open>follows st st'\<close>: \<open>st'\<close> lies further on in the text of \<open>st\<close>, and the character
  it has before it is the one that stands there.
\<close>

fun ms_prev :: "mstate \<Rightarrow> char option" where
  "ms_prev (i, p, rs, g) = p"

definition follows :: "mstate \<Rightarrow> mstate \<Rightarrow> bool" where
  "follows st st' =
     (adv st st' \<and>
      ms_prev st' = (if eaten st st' = [] then ms_prev st else Some (last (eaten st st'))))"

section \<open>The words of the claims\<close>

text \<open>
  Notions in which the claims speak of a text, defined on the text alone and not
  through the patterns of the source: \<open>has_at s i w\<close>, the text \<open>w\<close> stands in \<open>s\<close> at
  index \<open>i\<close>; \<open>boundary s i\<close>, exactly one of the characters before and at index \<open>i\<close> is
  a word character (a letter, a digit or an underscore), so a word starts or ends there.
\<close>

definition has_at :: "string \<Rightarrow> nat \<Rightarrow> string \<Rightarrow> bool" where
  "has_at s i w = (take (length w) (drop i s) = w)"

definition word_at :: "string \<Rightarrow> nat \<Rightarrow> bool" where
  "word_at s i = (i < length s \<and> is_word (s ! i))"

definition boundary :: "string \<Rightarrow> nat \<Rightarrow> bool" where
  "boundary s i = ((0 < i \<and> word_at s (i - 1)) \<noteq> word_at s i)"

text \<open>
  A Fibonacci mention: \<open>fib(\<close> at the start of a word, or the word \<open>fibonacci\<close>.
\<close>

definition fibonacci_mention :: "string \<Rightarrow> bool" where
  "fibonacci_mention c =
     list_ex (\<lambda>i. boundary c i \<and> has_at c i ''fib('' \<or>
                   boundary c i \<and> has_at c i ''fibonacci'' \<and> boundary c (i + 9))
       [0..<Suc (length c)]"

text \<open>
  The memoization keywords: a word that begins with \<open>mem\<close>, the letters \<open>memo\<close> at the
  end of a word, the word \<open>cache\<close>, the word \<open>dp\<close>.
\<close>

definition memo_keyword :: "string \<Rightarrow> bool" where
  "memo_keyword c =
     list_ex (\<lambda>i. boundary c i \<and> has_at c i ''mem'' \<or>
                   has_at c i ''memo'' \<and> boundary c (i + 4) \<or>
                   boundary c i \<and> has_at c i ''cache'' \<and> boundary c (i + 5) \<or>
                   boundary c i \<and> has_at c i ''dp'' \<and> boundary c (i + 2))
       [0..<Suc (length c)]"

text \<open>The place at index \<open>i\<close> of a text, with no group captured.\<close>

definition state_at :: "string \<Rightarrow> nat \<Rightarrow> mstate" where
  "state_at s i = (i, (if i = 0 then None else Some (s ! (i - 1))), drop i s, [])"

text \<open>
  The characters with which a comment or a string literal can begin: \<open>/\<close>, \<open>#\<close> and the
  three quotes. A text of plain characters holds neither.
\<close>

definition plain :: "char \<Rightarrow> bool" where
  "plain c = (c \<noteq> CHR ''/'' \<and> c \<noteq> CHR ''#'' \<and> c \<noteq> CHR 0x22 \<and> c \<noteq> CHR 0x27 \<and> c \<noteq> CHR 0x60)"

section \<open>Regular expression objects\<close>

text \<open>
  The state the source has: a RegExp object with flag \<open>g\<close> carries \<open>lastIndex\<close>, which
  \<open>exec\<close> reads and writes. The store holds the \<open>lastIndex\<close> of every such object created
  so far; a pattern literal, when it is evaluated, creates a new object with \<open>lastIndex\<close>
  zero. The six loops on \<open>exec\<close> are the places where the source reads \<open>lastIndex\<close> of an
  object it holds in a variable; \<open>replace\<close> and \<open>match\<close> under flag \<open>g\<close> set it to zero
  before they scan, \<open>matchAll\<close> scans on a copy of its own, and \<open>test\<close> and \<open>match\<close>
  without flag \<open>g\<close> do not read it.
\<close>

type_synonym store = "nat list"

definition newRegExp :: "store \<Rightarrow> nat \<times> store" where
  "newRegExp \<sigma> = (length \<sigma>, \<sigma> @ [0])"

text \<open>
  \<open>re.exec(s)\<close> for the object at address \<open>a\<close> with pattern \<open>r\<close> and flag \<open>g\<close>: the
  leftmost match from \<open>lastIndex\<close> on, after which \<open>lastIndex\<close> is the end of the match;
  \<open>null\<close> when there is none, after which \<open>lastIndex\<close> is zero.
\<close>

definition regexp_exec :: "rx \<Rightarrow> nat \<Rightarrow> string \<Rightarrow> store \<Rightarrow> rmatch option \<times> store" where
  "regexp_exec r a s \<sigma> =
     (let lastIndex = \<sigma> ! a in
      if length s < lastIndex then (None, \<sigma>[a := 0])
      else
        (case rx_find r lastIndex (if lastIndex = 0 then None else Some (s ! (lastIndex - 1)))
                (drop lastIndex s) of
           None \<Rightarrow> (None, \<sigma>[a := 0])
         | Some m \<Rightarrow> (Some m, \<sigma>[a := m_index m + length (m_text m)])))"

text \<open>
  The loop \<open>while ((m = re.exec(code)) !== null) push(m)\<close>, on the store. When an \<open>exec\<close>
  that matched has not moved \<open>lastIndex\<close> forward, the next one returns the same match and
  the loop never ends.
\<close>

function exec_while :: "rx \<Rightarrow> nat \<Rightarrow> string \<Rightarrow> store \<Rightarrow> (rmatch list \<times> store) option" where
  "exec_while r a s \<sigma> =
     (case regexp_exec r a s \<sigma> of
        (None, \<sigma>') \<Rightarrow> Some ([], \<sigma>')
      | (Some m, \<sigma>') \<Rightarrow>
          if \<sigma> ! a < \<sigma>' ! a
          then map_option (\<lambda>(ms, \<sigma>''). (m # ms, \<sigma>'')) (exec_while r a s \<sigma>')
          else None)"
  by pat_completeness auto
termination
proof (relation "measure (\<lambda>(r, a, s, \<sigma>). Suc (length s) - \<sigma> ! a)")
  show "wf (measure (\<lambda>(r, a, s, \<sigma>). Suc (length s) - \<sigma> ! a))" by simp
next
  fix r a s \<sigma> x y m
  assume "(x, y) = regexp_exec r a s \<sigma>" and "x = Some m" and "\<sigma> ! a < y ! a"
  then have "\<sigma> ! a \<le> length s"
    by (auto simp: regexp_exec_def Let_def split: if_splits)
  with \<open>\<sigma> ! a < y ! a\<close>
  show "((r, a, s, y), (r, a, s, \<sigma>)) \<in> measure (\<lambda>(r, a, s, \<sigma>). Suc (length s) - \<sigma> ! a)"
    by simp
qed


text \<open>
  \<open>detectLoopsAndNesting\<close> on the store: its three pattern literals create three objects,
  and each loop runs on its own one. What follows the loops reads no \<open>lastIndex\<close>.
\<close>

definition loopsInfoOf :: "string \<Rightarrow> rmatch list \<Rightarrow> rmatch list \<Rightarrow> rmatch list \<Rightarrow> error + loopsInfo" where
  "loopsInfoOf code fors whiles rangeFors =
     (let loops =
            map (\<lambda>m. \<lparr>type = For, header = grp m 1, pos = m_index m\<rparr>) fors @
            map (\<lambda>m. \<lparr>type = While, header = grp m 1, pos = m_index m\<rparr>) whiles @
            map (\<lambda>m. \<lparr>type = RangeFor, header = Some (m_text m), pos = m_index m\<rparr>) rangeFors
      in case mapE (loopInfoOf code) loops of
           Inl e \<Rightarrow> Inl e
         | Inr lis \<Rightarrow>
             Inr \<lparr>loopCount = length loops,
                  maxDepth = maxDepthOf lis,
                  maxNestedN = maxNestedNOf (nLoopsAtDepthOf lis) (maxDepthOf lis),
                  logDetected = list_ex (\<lambda>l. iterKind l = Log) lis,
                  loopInfos = lis\<rparr>)"

definition detectLoopsAndNesting_st :: "string \<Rightarrow> store \<Rightarrow> (error + loopsInfo) \<times> store" where
  "detectLoopsAndNesting_st code \<sigma>0 =
     (let (forRegex_o, \<sigma>1) = newRegExp \<sigma>0;
          (whileRegex_o, \<sigma>2) = newRegExp \<sigma>1;
          (rangeForRegex_o, \<sigma>3) = newRegExp \<sigma>2
      in case exec_while forRegex forRegex_o code \<sigma>3 of
           None \<Rightarrow> (Inl NoReturn, \<sigma>3)
         | Some (fors, \<sigma>4) \<Rightarrow>
      case exec_while whileRegex whileRegex_o code \<sigma>4 of
           None \<Rightarrow> (Inl NoReturn, \<sigma>4)
         | Some (whiles, \<sigma>5) \<Rightarrow>
      case exec_while rangeForRegex rangeForRegex_o code \<sigma>5 of
           None \<Rightarrow> (Inl NoReturn, \<sigma>5)
         | Some (rangeFors, \<sigma>6) \<Rightarrow> (loopsInfoOf code fors whiles rangeFors, \<sigma>6))"

text \<open>
  \<open>detectRecursion\<close> on the store: each of its three pattern literals is evaluated just
  before its loop.
\<close>

definition recursionInfoOf :: "string \<Rightarrow> rmatch list \<Rightarrow> error + recursionInfo" where
  "recursionInfoOf code decls =
     (let fnDecls = map (\<lambda>m. \<lparr>f_name = grp m 1, f_idx = m_index m\<rparr>) decls in
      case recursionOf code fnDecls of
        Inl e \<Rightarrow> Inl e
      | Inr recursion \<Rightarrow> Inr \<lparr>found = length recursion > 0, functions = recursion\<rparr>)"

definition detectRecursion_st :: "string \<Rightarrow> store \<Rightarrow> (error + recursionInfo) \<times> store" where
  "detectRecursion_st code \<sigma>0 =
     (let (jsFunc_o, \<sigma>1) = newRegExp \<sigma>0 in
      case exec_while jsFunc jsFunc_o code \<sigma>1 of
        None \<Rightarrow> (Inl NoReturn, \<sigma>1)
      | Some (js, \<sigma>2) \<Rightarrow>
     (let (pyDef_o, \<sigma>3) = newRegExp \<sigma>2 in
      case exec_while pyDef pyDef_o code \<sigma>3 of
        None \<Rightarrow> (Inl NoReturn, \<sigma>3)
      | Some (py, \<sigma>4) \<Rightarrow>
     (let (cStyle_o, \<sigma>5) = newRegExp \<sigma>4 in
      case exec_while cStyle cStyle_o code \<sigma>5 of
        None \<Rightarrow> (Inl NoReturn, \<sigma>5)
      | Some (cs, \<sigma>6) \<Rightarrow> (recursionInfoOf code (js @ py @ cs), \<sigma>6))))"

text \<open>
  \<open>analyzeComplexity\<close> on the store. \<open>verdictOf\<close> is the part of it after the two
  analyses, which reads their results only.
\<close>

definition verdictOf :: "loopsInfo \<Rightarrow> recursionInfo \<Rightarrow> error + verdict" where
  "verdictOf loopsInfo recursionInfo =
    (if found recursionInfo then
       if list_ex (\<lambda>f. calls f > 1) (functions recursionInfo) then
         Inr \<lparr>time = str ''O(2^n) (possible exponential recursive branching)'',
              timeExplanation = str ''Recursion with multiple recursive calls detected '' @
                [(CHR 0x20, CHR 0x14)] @ str '' likely exponential.'',
              space = str ''O(n) (recursion stack)'',
              spaceExplanation = str ''Recursion stack grows with depth.'',
              details = Structure loopsInfo recursionInfo\<rparr>
       else if loopCount loopsInfo > 0 then
         Inr \<lparr>time = str ''O(n log n) or O(n * (loop cost))'',
              timeExplanation = str ''Single recursion detected together with loops '' @
                [(CHR 0x20, CHR 0x14)] @ str '' heuristic estimate O(n log n).'',
              space = str ''O(n + additional)'',
              spaceExplanation = str ''Recursion stack + container usage.'',
              details = Structure loopsInfo recursionInfo\<rparr>
       else
         Inr \<lparr>time = str ''O(n) (single recursion)'',
              timeExplanation = str ''Single recursion detected '' @ [(CHR 0x20, CHR 0x14)] @
                str '' typically linear.'',
              space = str ''O(n)'',
              spaceExplanation = str ''Recursion stack.'',
              details = Structure loopsInfo recursionInfo\<rparr>
     else if loopCount loopsInfo > 0 then
       if logDetected loopsInfo then
         if maxNestedN loopsInfo = 0 then
           Inr \<lparr>time = str ''O(log n)'',
                timeExplanation = str ''Detected logarithmic loop pattern (divide-by-two behavior).'',
                space = str ''O(n)'',
                spaceExplanation = str ''Output array grows with input size.'',
                details = Structure loopsInfo recursionInfo\<rparr>
         else
           Inr \<lparr>time = str ''O(n^'' @ digits (maxNestedN loopsInfo) @ str '' log n)'',
                timeExplanation = str ''Detected '' @ digits (maxNestedN loopsInfo) @
                  str '' nested loops with logarithmic behavior.'',
                space = str ''O(n)'',
                spaceExplanation = str ''Output array grows with input size.'',
                details = Structure loopsInfo recursionInfo\<rparr>
       else
         (case hasNestedSameArrayLoop (loopInfos loopsInfo) of
            Inl e \<Rightarrow> Inl e
          | Inr nested \<Rightarrow>
              if nested then
                Inr \<lparr>time = str ''O(n'' @ [(CHR 0x00, CHR 0xB2)] @ str '')'',
                     timeExplanation = str ''Detected two nested loops iterating over same array.'',
                     space = str ''O(n)'',
                     spaceExplanation = str ''Output array grows with input size.'',
                     details = Structure loopsInfo recursionInfo\<rparr>
              else if maxNestedN loopsInfo \<ge> 2 then
                Inr \<lparr>time = str ''O(n^'' @ digits (maxNestedN loopsInfo) @ str '')'',
                     timeExplanation = str ''Detected '' @ digits (maxNestedN loopsInfo) @
                       str '' nested loops iterating over input size.'',
                     space = str ''O(n)'',
                     spaceExplanation = str ''Output array grows with input size.'',
                     details = Structure loopsInfo recursionInfo\<rparr>
              else if maxNestedN loopsInfo = 1 then
                Inr \<lparr>time = str ''O(n)'',
                     timeExplanation = str ''Detected single loop iterating over input size.'',
                     space = str ''O(n)'',
                     spaceExplanation = str ''Output array grows with input size.'',
                     details = Structure loopsInfo recursionInfo\<rparr>
              else
                Inr \<lparr>time = str ''O(1)'',
                     timeExplanation = str ''No loops or recursion detected (heuristic).'',
                     space = str ''O(n)'',
                     spaceExplanation = str ''Output array grows with input size.'',
                     details = Structure loopsInfo recursionInfo\<rparr>)
     else
       Inr \<lparr>time = str ''O(1)'',
            timeExplanation = str ''No loops or recursion detected (heuristic).'',
            space = str ''O(1)'',
            spaceExplanation = str ''No obvious dynamic allocations detected.'',
            details = Structure loopsInfo recursionInfo\<rparr>)"

definition analyzeComplexity_st :: "string \<Rightarrow> store \<Rightarrow> (error + verdict) \<times> store" where
  "analyzeComplexity_st rawCode \<sigma>0 =
     (if rawCode = [] \<or> trim rawCode = [] then
        (Inr \<lparr>time = str ''O(1)'',
              timeExplanation = str ''Empty or trivial code.'',
              space = str ''O(1)'',
              spaceExplanation = str ''No allocations detected.'',
              details = NoDetails\<rparr>, \<sigma>0)
      else
        let cleaned = stripCommentsAndStrings rawCode in
        case detectKnownAlgorithms cleaned of
          Some known \<Rightarrow>
            (Inr \<lparr>time = time known,
                  timeExplanation = timeExplanation known,
                  space = space known,
                  spaceExplanation =
                    (if spaceExplanation known = [] then space known else spaceExplanation known),
                  details = details known\<rparr>, \<sigma>0)
        | None \<Rightarrow>
           (case detectLoopsAndNesting_st cleaned \<sigma>0 of
              (Inl e, \<sigma>1) \<Rightarrow> (Inl e, \<sigma>1)
            | (Inr loopsInfo, \<sigma>1) \<Rightarrow>
           (case detectRecursion_st cleaned \<sigma>1 of
              (Inl e, \<sigma>2) \<Rightarrow> (Inl e, \<sigma>2)
            | (Inr recursionInfo, \<sigma>2) \<Rightarrow> (verdictOf loopsInfo recursionInfo, \<sigma>2))))"

section \<open>Character classes on the bits of a character\<close>

text \<open>
  The classes and the case mapping, read off the eight bits of a character (the lowest
  first); these equations are the ones used to evaluate the model on a given text.
\<close>

lemma is_alpha_us_code [code]:
  "is_alpha_us (Char b0 b1 b2 b3 b4 b5 b6 b7) =
     (\<not> b7 \<and> b6 \<and>
      (((b0 \<or> b1 \<or> b2 \<or> b3 \<or> b4) \<and> \<not> (b4 \<and> b3 \<and> (b2 \<or> (b1 \<and> b0)))) \<or>
       (\<not> b5 \<and> b4 \<and> b3 \<and> b2 \<and> b1 \<and> b0)))"
  by (cases b0; cases b1; cases b2; cases b3; cases b4; cases b5; cases b6; cases b7;
      simp add: is_alpha_us_def less_eq_char_def)

lemma is_word_code [code]:
  "is_word (Char b0 b1 b2 b3 b4 b5 b6 b7) =
     (is_alpha_us (Char b0 b1 b2 b3 b4 b5 b6 b7) \<or>
      (\<not> b7 \<and> \<not> b6 \<and> b5 \<and> b4 \<and> \<not> (b3 \<and> (b2 \<or> b1))))"
  by (cases b0; cases b1; cases b2; cases b3; cases b4; cases b5; cases b6; cases b7;
      simp add: is_word_def less_eq_char_def)

lemma lower_char_code [code]:
  "lower_char (Char b0 b1 b2 b3 b4 b5 b6 b7) =
     (if b6 \<and> \<not> b5 \<and>
         ((\<not> b7 \<and> (b0 \<or> b1 \<or> b2 \<or> b3 \<or> b4) \<and> \<not> (b4 \<and> b3 \<and> (b2 \<or> (b1 \<and> b0)))) \<or>
          (b7 \<and> \<not> (b4 \<and> b3 \<and> b2 \<and> b1 \<and> b0) \<and> \<not> (b4 \<and> \<not> b3 \<and> b2 \<and> b1 \<and> b0)))
      then Char b0 b1 b2 b3 b4 True b6 b7 else Char b0 b1 b2 b3 b4 b5 b6 b7)"
  unfolding lower_char_def
  by (subst of_char_eq_iff [where ?'a = nat, symmetric];
      cases b0; cases b1; cases b2; cases b3; cases b4; cases b5; cases b6; cases b7;
      simp add: lower_unit_def)

section \<open>The matcher moves forward\<close>

declare rx_find.simps [simp del] replace_from.simps [simp del] matches_from.simps [simp del]
  exec_loop.simps [simp del] digits.simps [simp del]

lemma adv_refl: "adv st st"
  by (simp add: adv_def)

lemma adv_trans: "adv a b \<Longrightarrow> adv b c \<Longrightarrow> adv a c"
  by (auto simp: adv_def)

lemma starts_with_append: "starts_with s w \<Longrightarrow> s = w @ drop (length w) s"
  by (induction s w rule: starts_with.induct) auto

lemma star_iter_adv:
  assumes f: "\<And>a b. b \<in> set (f a) \<Longrightarrow> adv a b"
  shows "st' \<in> set (star_iter f fuel st) \<Longrightarrow> adv st st'"
proof (induction fuel arbitrary: st)
  case Nil
  then show ?case by (simp add: adv_refl)
next
  case (Cons x fuel)
  from Cons.prems consider "st' = st"
    | m where "m \<in> set (f st)" "st' \<in> set (star_iter f fuel m)"
    by (auto split: if_splits)
  then show ?case
  proof cases
    case 1
    then show ?thesis by (simp add: adv_refl)
  next
    case 2
    then show ?thesis using f Cons.IH adv_trans by blast
  qed
qed

lemma lazy_iter_adv:
  assumes f: "\<And>a b. b \<in> set (f a) \<Longrightarrow> adv a b"
  shows "st' \<in> set (lazy_iter f fuel st) \<Longrightarrow> adv st st'"
proof (induction fuel arbitrary: st)
  case Nil
  then show ?case by (simp add: adv_refl)
next
  case (Cons x fuel)
  from Cons.prems consider "st' = st"
    | m where "m \<in> set (f st)" "st' \<in> set (lazy_iter f fuel m)"
    by (auto split: if_splits)
  then show ?case
  proof cases
    case 1
    then show ?thesis by (simp add: adv_refl)
  next
    case 2
    then show ?thesis using f Cons.IH adv_trans by blast
  qed
qed

lemma run_adv: "st' \<in> set (rx_run r st) \<Longrightarrow> adv st st'"
proof (induction r arbitrary: st st')
  case (Chr P)
  then show ?case
    by (cases st) (auto simp: adv_def split: list.splits if_splits)
next
  case Eps
  then show ?case by (simp add: adv_refl)
next
  case (Seq a b)
  from Seq.prems obtain m where "m \<in> set (rx_run a st)" "st' \<in> set (rx_run b m)" by auto
  then show ?case using Seq.IH adv_trans by blast
next
  case (Alt a b)
  from Alt.prems have "st' \<in> set (rx_run a st) \<or> st' \<in> set (rx_run b st)" by simp
  then show ?case using Alt.IH by blast
next
  case (Star a)
  from Star.prems have "st' \<in> set (star_iter (rx_run a) (ms_rest st) st)" by simp
  moreover have "\<And>x y. y \<in> set (rx_run a x) \<Longrightarrow> adv x y" by (rule Star.IH)
  ultimately show ?case by (rule star_iter_adv [rotated])
next
  case (Lazy a)
  from Lazy.prems have "st' \<in> set (lazy_iter (rx_run a) (ms_rest st) st)" by simp
  moreover have "\<And>x y. y \<in> set (rx_run a x) \<Longrightarrow> adv x y" by (rule Lazy.IH)
  ultimately show ?case by (rule lazy_iter_adv [rotated])
next
  case (Grp k a)
  then show ?case by (cases st) (auto simp: adv_def)
next
  case Bnd
  then show ?case by (auto simp: adv_refl split: if_splits)
next
  case Eol
  then show ?case by (auto simp: adv_refl split: list.splits if_splits)
next
  case (NotAhead a)
  then show ?case by (auto simp: adv_refl split: list.splits)
next
  case (Back k)
  then show ?case
    by (cases st) (auto simp: adv_def dest: starts_with_append split: option.splits if_splits)
qed

lemma run_consumes: "consumes r \<Longrightarrow> st' \<in> set (rx_run r st) \<Longrightarrow> ms_pos st < ms_pos st'"
proof (induction r arbitrary: st st')
  case (Chr P)
  then show ?case by (cases st) (auto split: list.splits if_splits)
next
  case (Seq a b)
  from Seq.prems(2) obtain m where m: "m \<in> set (rx_run a st)" "st' \<in> set (rx_run b m)"
    by auto
  have "ms_pos st \<le> ms_pos m" "ms_pos m \<le> ms_pos st'"
    using run_adv [OF m(1)] run_adv [OF m(2)] by (auto simp: adv_def)
  moreover have "ms_pos st < ms_pos m \<or> ms_pos m < ms_pos st'"
    using Seq.prems(1) Seq.IH(1) [OF _ m(1)] Seq.IH(2) [OF _ m(2)] by auto
  ultimately show ?case by linarith
next
  case (Alt a b)
  from Alt.prems have "st' \<in> set (rx_run a st) \<or> st' \<in> set (rx_run b st)" "consumes a" "consumes b"
    by simp_all
  then show ?case using Alt.IH by blast
next
  case (Grp k a)
  then show ?case by (cases st) auto
qed simp_all

lemma adv_length: "adv (i, p, rs, g) (j, q, rs', g') \<Longrightarrow> length rs = length rs' + (j - i) \<and> i \<le> j"
  by (auto simp: adv_def)

lemma at_in_run: "rx_at r st = Some m \<Longrightarrow> m \<in> set (rx_run r st)"
  by (auto simp: rx_at_def split: list.splits)

lemma exec_loop_returns: "consumes r \<Longrightarrow> exec_loop r i p rs \<noteq> None"
proof (induction r i p rs rule: exec_loop.induct)
  case (1 r i p rs)
  show ?case
  proof (cases "rx_at r (i, p, rs, [])")
    case None
    then show ?thesis using 1 by (subst exec_loop.simps) (auto split: list.splits)
  next
    case (Some m)
    obtain j q rs' g where m: "m = (j, q, rs', g)" by (cases m)
    have "ms_pos (i, p, rs, []) < ms_pos m" "adv (i, p, rs, []) m"
      using run_consumes [OF "1.prems" at_in_run [OF Some]] run_adv [OF at_in_run [OF Some]] by auto
    then have "length rs' < length rs" using m adv_length by fastforce
    then show ?thesis using 1 Some m
      by (subst exec_loop.simps) auto
  qed
qed

lemma star_iter_rel:
  assumes rfl: "\<And>a. R a a" and trn: "\<And>a b c. R a b \<Longrightarrow> R b c \<Longrightarrow> R a c"
    and f: "\<And>a b. b \<in> set (f a) \<Longrightarrow> R a b"
  shows "st' \<in> set (star_iter f fuel st) \<Longrightarrow> R st st'"
proof (induction fuel arbitrary: st)
  case Nil
  then show ?case by (simp add: rfl)
next
  case (Cons x fuel)
  from Cons.prems consider "st' = st"
    | m where "m \<in> set (f st)" "st' \<in> set (star_iter f fuel m)"
    by (auto split: if_splits)
  then show ?case
  proof cases
    case 1
    then show ?thesis by (simp add: rfl)
  next
    case 2
    then show ?thesis using f Cons.IH trn by blast
  qed
qed

lemma lazy_iter_rel:
  assumes rfl: "\<And>a. R a a" and trn: "\<And>a b c. R a b \<Longrightarrow> R b c \<Longrightarrow> R a c"
    and f: "\<And>a b. b \<in> set (f a) \<Longrightarrow> R a b"
  shows "st' \<in> set (lazy_iter f fuel st) \<Longrightarrow> R st st'"
proof (induction fuel arbitrary: st)
  case Nil
  then show ?case by (simp add: rfl)
next
  case (Cons x fuel)
  from Cons.prems consider "st' = st"
    | m where "m \<in> set (f st)" "st' \<in> set (lazy_iter f fuel m)"
    by (auto split: if_splits)
  then show ?case
  proof cases
    case 1
    then show ?thesis by (simp add: rfl)
  next
    case 2
    then show ?thesis using f Cons.IH trn by blast
  qed
qed

lemma eaten_self: "eaten st st = []"
  by (simp add: eaten_def)

lemma eaten_trans: "adv a b \<Longrightarrow> adv b c \<Longrightarrow> eaten a c = eaten a b @ eaten b c"
  by (auto simp: adv_def eaten_def)

lemma eaten_adv: "adv a b \<Longrightarrow> ms_rest a = eaten a b @ ms_rest b"
  by (auto simp: adv_def eaten_def)

text \<open>The text a pattern matched is made of characters of its classes.\<close>

definition within :: "(char \<Rightarrow> bool) \<Rightarrow> mstate \<Rightarrow> mstate \<Rightarrow> bool" where
  "within Q st st' = (adv st st' \<and> list_all Q (eaten st st'))"

lemma within_refl: "within Q a a"
  by (simp add: within_def adv_refl eaten_self)

lemma within_trans: "within Q a b \<Longrightarrow> within Q b c \<Longrightarrow> within Q a c"
  by (auto simp: within_def eaten_trans intro: adv_trans)

lemma run_within: "classes_within Q r \<Longrightarrow> st' \<in> set (rx_run r st) \<Longrightarrow> within Q st st'"
proof (induction r arbitrary: st st')
  case (Chr P)
  then show ?case
    by (cases st) (auto simp: within_def adv_def eaten_def split: list.splits if_splits)
next
  case Eps
  then show ?case by (simp add: within_refl)
next
  case (Seq a b)
  from Seq.prems obtain m where "m \<in> set (rx_run a st)" "st' \<in> set (rx_run b m)" by auto
  then show ?case using Seq.IH Seq.prems(1) within_trans by (metis classes_within.simps(3))
next
  case (Alt a b)
  from Alt.prems have "st' \<in> set (rx_run a st) \<or> st' \<in> set (rx_run b st)"
    "classes_within Q a" "classes_within Q b" by simp_all
  then show ?case using Alt.IH by blast
next
  case (Star a)
  from Star.prems have mem: "st' \<in> set (star_iter (rx_run a) (ms_rest st) st)" by simp
  have step: "\<And>x y. y \<in> set (rx_run a x) \<Longrightarrow> within Q x y"
    using Star.IH Star.prems(1) by simp
  show ?case
    by (rule star_iter_rel [where R = "within Q", OF within_refl within_trans step mem])
next
  case (Lazy a)
  from Lazy.prems have mem: "st' \<in> set (lazy_iter (rx_run a) (ms_rest st) st)" by simp
  have step: "\<And>x y. y \<in> set (rx_run a x) \<Longrightarrow> within Q x y"
    using Lazy.IH Lazy.prems(1) by simp
  show ?case
    by (rule lazy_iter_rel [where R = "within Q", OF within_refl within_trans step mem])
next
  case (Grp k a)
  from Grp.prems obtain m where m: "m \<in> set (rx_run a st)" "ms_pos st' = ms_pos m" "ms_rest st' = ms_rest m"
    by (cases st) auto
  have "within Q st m" using Grp.IH Grp.prems(1) m(1) by simp
  then show ?case using m(2,3) by (simp add: within_def adv_def eaten_def)
next
  case Bnd
  then show ?case by (auto simp: within_refl split: if_splits)
next
  case Eol
  then show ?case by (auto simp: within_refl split: list.splits if_splits)
next
  case (NotAhead a)
  then show ?case by (auto simp: within_refl split: list.splits)
next
  case (Back k)
  then show ?case by simp
qed

text \<open>Groups: what is captured stays, and a group over word classes captures a word.\<close>

lemma run_wordcaps:
  "wordgroups r \<Longrightarrow> st' \<in> set (rx_run r st) \<Longrightarrow> wordcaps (ms_caps st) \<Longrightarrow> wordcaps (ms_caps st')"
proof (induction r arbitrary: st st')
  case (Chr P)
  then show ?case by (cases st) (auto split: list.splits if_splits)
next
  case (Seq a b)
  from Seq.prems obtain m where "m \<in> set (rx_run a st)" "st' \<in> set (rx_run b m)" by auto
  then show ?case using Seq.IH Seq.prems by (metis wordgroups.simps(3))
next
  case (Alt a b)
  from Alt.prems have "st' \<in> set (rx_run a st) \<or> st' \<in> set (rx_run b st)"
    "wordgroups a" "wordgroups b" by simp_all
  then show ?case using Alt.IH Alt.prems(3) by blast
next
  case (Star a)
  from Star.prems have mem: "st' \<in> set (star_iter (rx_run a) (ms_rest st) st)" by simp
  have step: "\<And>x y. y \<in> set (rx_run a x) \<Longrightarrow> wordcaps (ms_caps x) \<longrightarrow> wordcaps (ms_caps y)"
    using Star.IH Star.prems(1) by simp
  have "wordcaps (ms_caps st) \<longrightarrow> wordcaps (ms_caps st')"
    by (rule star_iter_rel [where R = "\<lambda>x y. wordcaps (ms_caps x) \<longrightarrow> wordcaps (ms_caps y)", OF _ _ step mem]) auto
  then show ?case using Star.prems(3) by simp
next
  case (Lazy a)
  from Lazy.prems have mem: "st' \<in> set (lazy_iter (rx_run a) (ms_rest st) st)" by simp
  have step: "\<And>x y. y \<in> set (rx_run a x) \<Longrightarrow> wordcaps (ms_caps x) \<longrightarrow> wordcaps (ms_caps y)"
    using Lazy.IH Lazy.prems(1) by simp
  have "wordcaps (ms_caps st) \<longrightarrow> wordcaps (ms_caps st')"
    by (rule lazy_iter_rel [where R = "\<lambda>x y. wordcaps (ms_caps x) \<longrightarrow> wordcaps (ms_caps y)", OF _ _ step mem]) auto
  then show ?case using Lazy.prems(3) by simp
next
  case (Grp k a)
  from Grp.prems(2) obtain m where m: "m \<in> set (rx_run a st)"
    and st': "ms_caps st' = (k, eaten st m) # ms_caps m"
    by (cases st) (auto simp: eaten_def)
  have "wordcaps (ms_caps m)" using Grp.IH Grp.prems m by simp
  moreover have "list_all is_word (eaten st m)"
    using run_within [of is_word a m st] Grp.prems(1) m by (simp add: within_def)
  ultimately show ?case using st' by (simp add: wordcaps_def)
next
  case (Back k)
  then show ?case by (cases st) (auto split: option.splits if_splits)
qed (auto split: list.splits if_splits)

lemma run_sets_keep:
  "st' \<in> set (rx_run r st) \<Longrightarrow> map_of (ms_caps st) k \<noteq> None \<Longrightarrow> map_of (ms_caps st') k \<noteq> None"
proof (induction r arbitrary: st st')
  case (Chr P)
  then show ?case by (cases st) (auto split: list.splits if_splits)
next
  case (Seq a b)
  from Seq.prems obtain m where "m \<in> set (rx_run a st)" "st' \<in> set (rx_run b m)" by auto
  then show ?case using Seq.IH Seq.prems by metis
next
  case (Alt a b)
  from Alt.prems have "st' \<in> set (rx_run a st) \<or> st' \<in> set (rx_run b st)" by simp
  then show ?case using Alt.IH Alt.prems(2) by blast
next
  case (Star a)
  from Star.prems have mem: "st' \<in> set (star_iter (rx_run a) (ms_rest st) st)" by simp
  have step: "\<And>x y. y \<in> set (rx_run a x) \<Longrightarrow> map_of (ms_caps x) k \<noteq> None \<longrightarrow> map_of (ms_caps y) k \<noteq> None"
    using Star.IH by simp
  have "map_of (ms_caps st) k \<noteq> None \<longrightarrow> map_of (ms_caps st') k \<noteq> None"
    by (rule star_iter_rel [where R = "\<lambda>x y. map_of (ms_caps x) k \<noteq> None \<longrightarrow> map_of (ms_caps y) k \<noteq> None", OF _ _ step mem]) auto
  then show ?case using Star.prems(2) by simp
next
  case (Lazy a)
  from Lazy.prems have mem: "st' \<in> set (lazy_iter (rx_run a) (ms_rest st) st)" by simp
  have step: "\<And>x y. y \<in> set (rx_run a x) \<Longrightarrow> map_of (ms_caps x) k \<noteq> None \<longrightarrow> map_of (ms_caps y) k \<noteq> None"
    using Lazy.IH by simp
  have "map_of (ms_caps st) k \<noteq> None \<longrightarrow> map_of (ms_caps st') k \<noteq> None"
    by (rule lazy_iter_rel [where R = "\<lambda>x y. map_of (ms_caps x) k \<noteq> None \<longrightarrow> map_of (ms_caps y) k \<noteq> None", OF _ _ step mem]) auto
  then show ?case using Lazy.prems(2) by simp
next
  case (Grp k' a)
  from Grp.prems(1) obtain m where m: "m \<in> set (rx_run a st)"
    and st': "ms_caps st' = (k', eaten st m) # ms_caps m"
    by (cases st) (auto simp: eaten_def)
  have "map_of (ms_caps m) k \<noteq> None" using Grp.IH Grp.prems m by simp
  then show ?case using st' by simp
next
  case (Back k')
  then show ?case by (cases st) (auto split: option.splits if_splits)
qed (auto split: list.splits if_splits)

lemma run_sets_grp:
  "sets_grp k r \<Longrightarrow> st' \<in> set (rx_run r st) \<Longrightarrow> map_of (ms_caps st') k \<noteq> None"
proof (induction r arbitrary: st st')
  case (Seq a b)
  from Seq.prems obtain m where m: "m \<in> set (rx_run a st)" "st' \<in> set (rx_run b m)" by auto
  show ?case
  proof (cases "sets_grp k a")
    case True
    then have "map_of (ms_caps m) k \<noteq> None" using Seq.IH(1) m(1) by simp
    then show ?thesis using run_sets_keep [OF m(2)] by simp
  next
    case False
    then show ?thesis using Seq.prems(1) Seq.IH(2) m(2) by simp
  qed
next
  case (Alt a b)
  from Alt.prems have "st' \<in> set (rx_run a st) \<or> st' \<in> set (rx_run b st)"
    "sets_grp k a" "sets_grp k b" by simp_all
  then show ?case using Alt.IH by blast
next
  case (Grp k' a)
  from Grp.prems(2) obtain m where m: "m \<in> set (rx_run a st)"
    and st': "ms_caps st' = (k', eaten st m) # ms_caps m"
    by (cases st) (auto simp: eaten_def)
  show ?case
  proof (cases "k' = k")
    case True
    then show ?thesis using st' by simp
  next
    case False
    then have "map_of (ms_caps m) k \<noteq> None" using Grp.IH Grp.prems(1) m by simp
    then show ?thesis using st' by simp
  qed
qed simp_all

section \<open>What the scans return\<close>

lemma exec_loop_caps:
  "\<forall>st st'. st' \<in> set (rx_run r st) \<longrightarrow> ms_caps st = [] \<longrightarrow> Pc (ms_caps st') \<Longrightarrow>
   exec_loop r i p rs = Some ms \<Longrightarrow> m \<in> set ms \<Longrightarrow> Pc (m_caps m)"
proof (induction "length rs" arbitrary: i p rs ms rule: less_induct)
  case less
  show ?case
  proof (cases "rx_at r (i, p, rs, [])")
    case None
    show ?thesis
    proof (cases rs)
      case Nil
      with None less.prems show ?thesis by (simp add: exec_loop.simps [of r i p "[]"])
    next
      case (Cons c cs)
      with None less.prems have "exec_loop r (Suc i) (Some c) cs = Some ms"
        by (simp add: exec_loop.simps [of r i p "c # cs"])
      then show ?thesis using less.hyps [of cs] Cons less.prems by simp
    qed
  next
    case (Some st')
    obtain j q rs' g where st': "st' = (j, q, rs', g)" by (cases st')
    from less.prems(2) Some st' obtain ms' where lt: "length rs' < length rs"
      and ms': "exec_loop r j q rs' = Some ms'"
      and ms: "ms = \<lparr>m_index = i, m_text = take (j - i) rs, m_caps = g\<rparr> # ms'"
      by (auto simp: exec_loop.simps [of r i p rs] split: if_splits)
    have "Pc g" using at_in_run [OF Some] less.prems(1) st' by fastforce
    then show ?thesis using less.hyps [OF lt less.prems(1) ms'] ms less.prems(3) by auto
  qed
qed

lemma matches_from_caps:
  "\<forall>st st'. st' \<in> set (rx_run r st) \<longrightarrow> ms_caps st = [] \<longrightarrow> Pc (ms_caps st') \<Longrightarrow>
   m \<in> set (matches_from r i p rs) \<Longrightarrow> Pc (m_caps m)"
proof (induction "length rs" arbitrary: i p rs rule: less_induct)
  case less
  show ?case
  proof (cases "rx_at r (i, p, rs, [])")
    case None
    show ?thesis
    proof (cases rs)
      case Nil
      with None less.prems show ?thesis by (simp add: matches_from.simps [of r i p "[]"])
    next
      case (Cons c cs)
      with None less.prems have "m \<in> set (matches_from r (Suc i) (Some c) cs)"
        by (simp add: matches_from.simps [of r i p "c # cs"])
      then show ?thesis using less.hyps [of cs] Cons less.prems by simp
    qed
  next
    case (Some st')
    obtain j q rs' g where st': "st' = (j, q, rs', g)" by (cases st')
    have g: "Pc g" using at_in_run [OF Some] less.prems(1) st' by fastforce
    from less.prems(2) Some st' consider "m_caps m = g"
      | "length rs' < length rs" "m \<in> set (matches_from r j q rs')"
      | c cs where "rs = c # cs" "m \<in> set (matches_from r (Suc i) (Some c) cs)"
      by (auto simp: matches_from.simps [of r i p rs] split: if_splits list.splits)
    then show ?thesis
    proof cases
      case 1
      then show ?thesis using g by simp
    next
      case 2
      then show ?thesis using less.hyps less.prems(1) by blast
    next
      case 3
      then show ?thesis using less.hyps [of cs] less.prems(1) by simp
    qed
  qed
qed

lemma find_caps:
  "\<forall>st st'. st' \<in> set (rx_run r st) \<longrightarrow> ms_caps st = [] \<longrightarrow> Pc (ms_caps st') \<Longrightarrow>
   rx_find r i p rs = Some m \<Longrightarrow> Pc (m_caps m)"
proof (induction rs arbitrary: i p)
  case Nil
  then show ?case
    by (auto simp: rx_find.simps [of r i p "[]"] split: option.splits dest!: at_in_run)
next
  case (Cons c cs)
  show ?case
  proof (cases "rx_at r (i, p, c # cs, [])")
    case None
    then show ?thesis using Cons by (simp add: rx_find.simps [of r i p "c # cs"])
  next
    case (Some st')
    then show ?thesis using Cons.prems at_in_run [OF Some]
      by (cases st') (auto simp: rx_find.simps [of r i p "c # cs"])
  qed
qed

lemma wordcaps_run:
  "wordgroups r \<Longrightarrow> \<forall>st st'. st' \<in> set (rx_run r st) \<longrightarrow> ms_caps st = [] \<longrightarrow> wordcaps (ms_caps st')"
  using run_wordcaps by (fastforce simp: wordcaps_def)

lemma sets_grp_run:
  "sets_grp k r \<Longrightarrow>
   \<forall>st st'. st' \<in> set (rx_run r st) \<longrightarrow> ms_caps st = [] \<longrightarrow> map_of (ms_caps st') k \<noteq> None"
  using run_sets_grp by blast

lemma execAll_returns: "consumes r \<Longrightarrow> \<exists>ms. execAll r s = Some ms"
  using exec_loop_returns [of r 0 None s] by (auto simp: execAll_def)

section \<open>No pattern is built from anything but a word\<close>

lemma word_undefined: "list_all is_word ''undefined''"
  by (simp add: is_word_code is_alpha_us_code)

lemma wordcaps_js_string: "wordcaps g \<Longrightarrow> list_all is_word (js_string (map_of g k))"
proof (cases "map_of g k")
  case None
  then show ?thesis using word_undefined by (simp add: js_string_def)
next
  case (Some t)
  assume "wordcaps g"
  moreover from Some have "(k, t) \<in> set g" by (rule map_of_SomeD)
  ultimately show ?thesis using Some by (auto simp: wordcaps_def js_string_def list_all_iff)
qed

lemma splice_word: "list_all is_word (js_string v) \<Longrightarrow> splice v = Inr (lit (js_string v))"
  by (simp add: splice_def)

lemma wordgroups_midCalcRegex: "wordgroups midCalcRegex"
  by (simp add: midCalcRegex_def ident_def Plus_def chr_def sp_def is_word_def)

lemma wordgroups_identRx: "wordgroups identRx"
  by (simp add: identRx_def ident_def is_word_def)

lemma wordgroups_jsFunc: "wordgroups jsFunc"
  by (simp add: jsFunc_def ident_def Plus_def chr_def sp_def is_word_def)

lemma wordgroups_pyDef: "wordgroups pyDef"
  by (simp add: pyDef_def ident_def Plus_def chr_def sp_def is_word_def)

lemma wordgroups_cStyle: "wordgroups cStyle"
  by (simp add: cStyle_def ident_def Plus_def chr_def sp_def not_rparen_def is_word_def)

lemma consumes_scans:
  "consumes forRegex" "consumes whileRegex" "consumes rangeForRegex"
  "consumes jsFunc" "consumes pyDef" "consumes cStyle"
  by (simp_all add: forRegex_def whileRegex_def rangeForRegex_def jsFunc_def pyDef_def cStyle_def)

lemma sets_grp_forRegex: "sets_grp 1 forRegex"
  by (simp add: forRegex_def chr_def)

lemma isBinarySearchOf_returns: "\<exists>b. isBinarySearchOf vars body = Inr b"
proof (cases "rx_match midCalcRegex body")
  case None
  then show ?thesis by (auto simp: isBinarySearchOf_def)
next
  case (Some m)
  then have "wordcaps (m_caps m)"
    using find_caps [OF wordcaps_run [OF wordgroups_midCalcRegex]] by (simp add: rx_match_def)
  then have "\<And>k. splice (grp m k) = Inr (lit (js_string (grp m k)))"
    by (simp add: splice_word wordcaps_js_string grp_def)
  then show ?thesis using Some by (auto simp: isBinarySearchOf_def Let_def)
qed

lemma bodyKind_returns:
  assumes "\<forall>v \<in> set vars. list_all is_word (js_string v)"
  shows "\<exists>k. bodyKind vars body = Inr k"
proof -
  obtain b where b: "isBinarySearchOf vars body = Inr b"
    using isBinarySearchOf_returns by blast
  have "list_all is_word (js_string (case vars of [] \<Rightarrow> None | v # vs \<Rightarrow> v))"
    using assms word_undefined by (cases vars) (auto simp: js_string_def)
  then obtain x where "splice (case vars of [] \<Rightarrow> None | v # vs \<Rightarrow> v) = Inr x"
    using splice_word by blast
  then show ?thesis using b by (auto simp: bodyKind_def Let_def)
qed

lemma varsInCond_words:
  "\<forall>v \<in> set (map (\<lambda>x. grp x 1) (matchAll identRx hdr)). list_all is_word (js_string v)"
  using matches_from_caps [OF wordcaps_run [OF wordgroups_identRx]]
  by (auto simp: matchAll_def grp_def wordcaps_js_string)

lemma loopInfoOf_returns:
  "\<exists>li. loopInfoOf code lp = Inr li \<and> type li = type lp \<and> header li = header lp \<and> pos li = pos lp"
proof -
  obtain k where "bodyKind (map (\<lambda>x. grp x 1)
      (matchAll identRx (case header lp of None \<Rightarrow> [] | Some h \<Rightarrow> h))) (loopBody code (pos lp)) = Inr k"
    using bodyKind_returns [OF varsInCond_words] by blast
  then show ?thesis by (auto simp: loopInfoOf_def Let_def)
qed

lemma mapE_returns:
  "\<forall>x \<in> set xs. \<exists>y. f x = Inr y \<and> Q x y \<Longrightarrow> \<exists>ys. mapE f xs = Inr ys \<and> list_all2 Q xs ys"
  by (induction xs) auto

lemma someE_returns: "\<forall>x \<in> set xs. \<exists>b. f x = Inr b \<Longrightarrow> \<exists>b. someE f xs = Inr b"
  by (induction xs) auto

section \<open>The analyses return\<close>

lemma list_all2_setD2: "list_all2 Q xs ys \<Longrightarrow> y \<in> set ys \<Longrightarrow> \<exists>x \<in> set xs. Q x y"
  by (induction rule: list_all2_induct) auto

lemma detectLoopsAndNesting_returns:
  "\<exists>li. detectLoopsAndNesting code = Inr li \<and>
        (\<forall>l \<in> set (loopInfos li). type l = For \<longrightarrow> header l \<noteq> None)"
proof -
  obtain fors where ex1: "execAll forRegex code = Some fors"
    using execAll_returns [OF consumes_scans(1)] by blast
  obtain whiles where ex2: "execAll whileRegex code = Some whiles"
    using execAll_returns [OF consumes_scans(2)] by blast
  obtain rangeFors where ex3: "execAll rangeForRegex code = Some rangeFors"
    using execAll_returns [OF consumes_scans(3)] by blast
  define loops where "loops =
      map (\<lambda>m. \<lparr>type = For, header = grp m 1, pos = m_index m\<rparr>) fors @
      map (\<lambda>m. \<lparr>type = While, header = grp m 1, pos = m_index m\<rparr>) whiles @
      map (\<lambda>m. \<lparr>type = RangeFor, header = Some (m_text m), pos = m_index m\<rparr>) rangeFors"
  have fors: "\<forall>m \<in> set fors. grp m 1 \<noteq> None"
    using exec_loop_caps [where Pc = "\<lambda>g. map_of g 1 \<noteq> None",
        OF sets_grp_run [OF sets_grp_forRegex] ex1 [unfolded execAll_def]]
    by (simp add: grp_def)
  have hdr: "\<forall>lp \<in> set loops. type lp = For \<longrightarrow> header lp \<noteq> None"
    using fors by (auto simp: loops_def)
  obtain lis where lis: "mapE (loopInfoOf code) loops = Inr lis"
    and rel: "list_all2 (\<lambda>lp li. type li = type lp \<and> header li = header lp) loops lis"
    using mapE_returns [of loops "loopInfoOf code" "\<lambda>lp li. type li = type lp \<and> header li = header lp"]
      loopInfoOf_returns by blast
  have "\<forall>l \<in> set lis. type l = For \<longrightarrow> header l \<noteq> None"
  proof
    fix l assume "l \<in> set lis"
    then obtain lp where "lp \<in> set loops" "type l = type lp \<and> header l = header lp"
      using list_all2_setD2 [OF rel] by blast
    then show "type l = For \<longrightarrow> header l \<noteq> None" using hdr by auto
  qed
  then show ?thesis using ex1 ex2 ex3 lis
    by (simp add: detectLoopsAndNesting_def loops_def Let_def)
qed

lemma recursionOf_returns:
  "\<forall>f \<in> set fs. list_all is_word (js_string (f_name f)) \<Longrightarrow> \<exists>r. recursionOf code fs = Inr r"
proof (induction fs)
  case Nil
  then show ?case by simp
next
  case (Cons f fs)
  then obtain r where r: "recursionOf code fs = Inr r" by auto
  have "splice (f_name f) = Inr (lit (js_string (f_name f)))"
    using Cons.prems by (simp add: splice_word)
  then show ?case using r by (auto simp: Let_def split: option.splits)
qed

lemma detectRecursion_returns: "\<exists>ri. detectRecursion code = Inr ri"
proof -
  obtain js where ex1: "execAll jsFunc code = Some js"
    using execAll_returns [OF consumes_scans(4)] by blast
  obtain py where ex2: "execAll pyDef code = Some py"
    using execAll_returns [OF consumes_scans(5)] by blast
  obtain cs where ex3: "execAll cStyle code = Some cs"
    using execAll_returns [OF consumes_scans(6)] by blast
  have "\<And>m. m \<in> set js \<Longrightarrow> wordcaps (m_caps m)"
    by (rule exec_loop_caps [where Pc = wordcaps,
          OF wordcaps_run [OF wordgroups_jsFunc] ex1 [unfolded execAll_def]])
  moreover have "\<And>m. m \<in> set py \<Longrightarrow> wordcaps (m_caps m)"
    by (rule exec_loop_caps [where Pc = wordcaps,
          OF wordcaps_run [OF wordgroups_pyDef] ex2 [unfolded execAll_def]])
  moreover have "\<And>m. m \<in> set cs \<Longrightarrow> wordcaps (m_caps m)"
    by (rule exec_loop_caps [where Pc = wordcaps,
          OF wordcaps_run [OF wordgroups_cStyle] ex3 [unfolded execAll_def]])
  ultimately have "\<forall>m \<in> set (js @ py @ cs). wordcaps (m_caps m)"
    by auto
  then have "\<forall>f \<in> set (map (\<lambda>m. \<lparr>f_name = grp m 1, f_idx = m_index m\<rparr>) (js @ py @ cs)).
      list_all is_word (js_string (f_name f))"
    by (auto simp: grp_def wordcaps_js_string)
  then obtain r where "recursionOf code (map (\<lambda>m. \<lparr>f_name = grp m 1, f_idx = m_index m\<rparr>) (js @ py @ cs)) = Inr r"
    using recursionOf_returns by blast
  then show ?thesis using ex1 ex2 ex3 by (simp add: detectRecursion_def Let_def)
qed

lemma hasNestedSameArrayLoop_returns:
  assumes "\<forall>l \<in> set lis. type l = For \<longrightarrow> header l \<noteq> None"
  shows "\<exists>b. hasNestedSameArrayLoop lis = Inr b"
  unfolding hasNestedSameArrayLoop_def
proof (rule someE_returns, rule ballI, rule someE_returns, rule ballI)
  fix outer inner assume "outer \<in> set lis" "inner \<in> set lis"
  then show "\<exists>b. (if depth inner = depth outer + 1 \<and> type inner = For \<and> type outer = For
           then case header outer of None \<Rightarrow> Inl TypeError
                | Some ho \<Rightarrow>
                    if rx_test lengthRx (lower ho)
                    then case header inner of None \<Rightarrow> Inl TypeError
                         | Some hi \<Rightarrow> Inr (rx_test lengthRx (lower hi))
                    else Inr False
           else Inr False) = Inr b"
    using assms by (auto split: option.splits)
qed

lemma analyzeComplexity_returns_aux: "\<exists>v. analyzeComplexity rawCode = Inr v"
proof -
  obtain li where li: "detectLoopsAndNesting (stripCommentsAndStrings rawCode) = Inr li"
    and hd: "\<forall>l \<in> set (loopInfos li). type l = For \<longrightarrow> header l \<noteq> None"
    using detectLoopsAndNesting_returns by blast
  obtain ri where ri: "detectRecursion (stripCommentsAndStrings rawCode) = Inr ri"
    using detectRecursion_returns by blast
  obtain b where b: "hasNestedSameArrayLoop (loopInfos li) = Inr b"
    using hasNestedSameArrayLoop_returns [OF hd] by blast
  show ?thesis
    by (simp add: analyzeComplexity_def Let_def li ri b split: option.splits)
qed

section \<open>Blank text\<close>

lemma run_zero_width: "zero_width r \<Longrightarrow> st' \<in> set (rx_run r st) \<Longrightarrow> st' = st"
proof (induction r arbitrary: st st')
  case (Seq a b)
  from Seq.prems obtain m where "m \<in> set (rx_run a st)" "st' \<in> set (rx_run b m)" by auto
  then show ?case using Seq.IH Seq.prems(1) by (metis zero_width.simps(3))
next
  case (Alt a b)
  from Alt.prems have "st' \<in> set (rx_run a st) \<or> st' \<in> set (rx_run b st)"
    "zero_width a" "zero_width b" by simp_all
  then show ?case using Alt.IH by blast
qed (auto split: list.splits if_splits)

lemma run_first_not:
  "first_not Q r \<Longrightarrow> st' \<in> set (rx_run r st) \<Longrightarrow> ms_rest st \<noteq> [] \<and> \<not> Q (hd (ms_rest st))"
proof (induction r arbitrary: st st')
  case (Chr P)
  then show ?case by (cases st) (auto split: list.splits if_splits)
next
  case (Seq a b)
  from Seq.prems(2) obtain m where m: "m \<in> set (rx_run a st)" "st' \<in> set (rx_run b m)" by auto
  show ?case
  proof (cases "first_not Q a")
    case True
    then show ?thesis using Seq.IH(1) m(1) by blast
  next
    case False
    then have "zero_width a" "first_not Q b" using Seq.prems(1) by auto
    then show ?thesis using run_zero_width [OF _ m(1)] Seq.IH(2) m(2) by blast
  qed
next
  case (Alt a b)
  from Alt.prems have "st' \<in> set (rx_run a st) \<or> st' \<in> set (rx_run b st)"
    "first_not Q a" "first_not Q b" by simp_all
  then show ?case using Alt.IH by blast
next
  case (Grp k a)
  from Grp.prems obtain m where "m \<in> set (rx_run a st)" "first_not Q a" by (cases st) auto
  then show ?case using Grp.IH by blast
qed simp_all

lemma at_space: "first_not is_space r \<Longrightarrow> list_all is_space rs \<Longrightarrow> rx_at r (i, p, rs, g) = None"
proof (rule ccontr)
  assume r: "first_not is_space r" and sp: "list_all is_space rs" and "rx_at r (i, p, rs, g) \<noteq> None"
  then obtain m where "m \<in> set (rx_run r (i, p, rs, g))" using at_in_run by fastforce
  from run_first_not [OF r this] sp show False by (cases rs) auto
qed

lemma exec_loop_space:
  "first_not is_space r \<Longrightarrow> list_all is_space rs \<Longrightarrow> exec_loop r i p rs = Some []"
proof (induction rs arbitrary: i p)
  case Nil
  then show ?case by (simp add: exec_loop.simps [of r i p "[]"] at_space)
next
  case (Cons c cs)
  then show ?case by (simp add: exec_loop.simps [of r i p "c # cs"] at_space)
qed

lemma find_space:
  "first_not is_space r \<Longrightarrow> list_all is_space rs \<Longrightarrow> rx_find r i p rs = None"
proof (induction rs arbitrary: i p)
  case Nil
  then show ?case by (simp add: rx_find.simps [of r i p "[]"] at_space)
next
  case (Cons c cs)
  then show ?case by (simp add: rx_find.simps [of r i p "c # cs"] at_space)
qed

lemma trim_blank: "trim s = [] \<Longrightarrow> list_all is_space s"
proof -
  assume "trim s = []"
  then have all: "\<forall>x \<in> set (dropWhile is_space s). is_space x"
    by (simp add: trim_def dropWhile_eq_Nil_conv)
  have "dropWhile is_space s = []"
  proof (cases "dropWhile is_space s")
    case Nil
    then show ?thesis .
  next
    case (Cons x xs)
    then have "\<not> is_space x" using hd_dropWhile [of is_space s] by simp
    then show ?thesis using all Cons by simp
  qed
  then show ?thesis by (simp add: dropWhile_eq_Nil_conv list_all_iff)
qed

lemma replace_from_set: "set (replace_from r rep i p rs) \<subseteq> set rs \<union> set rep"
proof (induction "length rs" arbitrary: i p rs rule: less_induct)
  case less
  show ?case
  proof (cases "rx_at r (i, p, rs, [])")
    case None
    show ?thesis
    proof (cases rs)
      case Nil
      with None show ?thesis by (simp add: replace_from.simps [of r rep i p "[]"])
    next
      case (Cons c cs)
      with None less.hyps [of cs "Suc i" "Some c"] show ?thesis
        by (auto simp: replace_from.simps [of r rep i p "c # cs"])
    qed
  next
    case (Some st')
    obtain j q rs' g where st': "st' = (j, q, rs', g)" by (cases st')
    have "adv (i, p, rs, []) (j, q, rs', g)" using run_adv [OF at_in_run [OF Some]] st' by simp
    then have sub: "set rs' \<subseteq> set rs" by (auto simp: adv_def)
    show ?thesis
    proof (cases "length rs' < length rs")
      case True
      then show ?thesis using Some st' less.hyps [OF True, of j q] sub
        by (auto simp: replace_from.simps [of r rep i p rs])
    next
      case False
      show ?thesis
      proof (cases rs)
        case Nil
        with False Some st' show ?thesis by (simp add: replace_from.simps [of r rep i p "[]"])
      next
        case (Cons c cs)
        with False Some st' less.hyps [of cs "Suc i" "Some c"] show ?thesis
          by (auto simp: replace_from.simps [of r rep i p "c # cs"])
      qed
    qed
  qed
qed

lemma replace_all_space: "list_all is_space s \<Longrightarrow> list_all is_space (replace_all r '' '' s)"
  using replace_from_set [of r "'' ''" 0 None s]
  by (auto simp: replace_all_def list_all_iff is_space_def)

lemma strip_space: "list_all is_space s \<Longrightarrow> list_all is_space (stripCommentsAndStrings s)"
  by (simp add: stripCommentsAndStrings_def Let_def replace_all_space)

lemma blank_cleaned:
  "rawCode = [] \<or> trim rawCode = [] \<Longrightarrow> list_all is_space (stripCommentsAndStrings rawCode)"
  using trim_blank strip_space by auto

lemma first_not_scans:
  "first_not is_space forRegex" "first_not is_space whileRegex" "first_not is_space rangeForRegex"
  "first_not is_space jsFunc" "first_not is_space pyDef" "first_not is_space cStyle"
  by (auto simp: forRegex_def whileRegex_def rangeForRegex_def jsFunc_def pyDef_def cStyle_def
        is_space_def is_alpha_us_def less_eq_char_def)

lemma space_loops:
  "list_all is_space code \<Longrightarrow>
   detectLoopsAndNesting code =
     Inr \<lparr>loopCount = 0, maxDepth = 0, maxNestedN = 0, logDetected = False, loopInfos = []\<rparr>"
  by (simp add: detectLoopsAndNesting_def execAll_def exec_loop_space first_not_scans
        maxDepthOf_def maxNestedNOf_def nLoopsAtDepthOf_def count_at_def)

lemma space_recursion:
  "list_all is_space code \<Longrightarrow> detectRecursion code = Inr \<lparr>found = False, functions = []\<rparr>"
  by (simp add: detectRecursion_def execAll_def exec_loop_space first_not_scans)

lemma includes_head: "js_includes s (c # w) \<Longrightarrow> c \<in> set s"
proof (induction s)
  case Nil
  then show ?case by simp
next
  case (Cons x s)
  then show ?case by (cases "x = c") auto
qed

lemma lower_space: "is_space c \<Longrightarrow> lower_char c = c"
  by (auto simp: is_space_def lower_char_code)

lemma space_no_mention:
  "list_all is_space code \<Longrightarrow> \<not> is_space c \<Longrightarrow> \<not> js_includes (lower code) (c # w)"
proof
  assume sp: "list_all is_space code" and c: "\<not> is_space c"
    and inc: "js_includes (lower code) (c # w)"
  from inc have "c \<in> set (lower code)" by (rule includes_head)
  then obtain x where x: "x \<in> set code" "c = lower_char x" by (auto simp: lower_def)
  from x(1) sp have "is_space x" by (simp add: list_all_iff)
  then have "is_space (lower_char x)" by (simp add: lower_space)
  then show False using c x(2) by simp
qed

section \<open>The catalog\<close>

lemma catalog_length: "length (catalog code c) = 21"
  by (simp add: catalog_def)

lemma catalog_appends: "step \<in> set (catalog code c) \<Longrightarrow> \<exists>ys. step rs = rs @ ys"
  by (auto simp: catalog_def push_if_def)

lemma fold_appends:
  "\<forall>step \<in> set steps. \<forall>rs. \<exists>ys. step rs = rs @ ys \<Longrightarrow> \<exists>ys. fold (\<lambda>step. step) steps rs = rs @ ys"
proof (induction steps arbitrary: rs)
  case Nil
  then show ?case by simp
next
  case (Cons s steps)
  from Cons.prems have "\<exists>ys. s rs = rs @ ys" by simp
  then obtain ys where ys: "s rs = rs @ ys" ..
  from Cons.prems have "\<forall>step \<in> set steps. \<forall>rs. \<exists>ys. step rs = rs @ ys" by simp
  from Cons.IH [OF this, of "rs @ ys"] obtain zs
    where "fold (\<lambda>step. step) steps (rs @ ys) = (rs @ ys) @ zs" ..
  then show ?case using ys by simp
qed

lemma knownResults_from:
  "knownResults code = fold (\<lambda>step. step) (drop k (catalog code (lower code))) (resultsAfter k code)"
proof -
  have "fold (\<lambda>step. step) (take k (catalog code (lower code)) @ drop k (catalog code (lower code))) [] =
        fold (\<lambda>step. step) (drop k (catalog code (lower code))) (resultsAfter k code)"
    unfolding fold_append by (simp add: resultsAfter_def)
  then show ?thesis by (simp add: knownResults_def resultsAfter_def)
qed

lemma knownResults_prefix: "\<exists>ys. knownResults code = resultsAfter k code @ ys"
  unfolding knownResults_from [of code k]
  by (rule fold_appends) (meson catalog_appends in_set_dropD)

lemma resultsAfter_Suc:
  "k < 21 \<Longrightarrow> resultsAfter (Suc k) code = (catalog code (lower code) ! k) (resultsAfter k code)"
  by (simp add: resultsAfter_def take_Suc_conv_app_nth catalog_length)

section \<open>The decision\<close>

lemma mapE_length: "mapE f xs = Inr ys \<Longrightarrow> length ys = length xs"
  by (induction xs arbitrary: ys) (auto split: sum.splits)

lemma detectLoopsAndNesting_fields:
  assumes "detectLoopsAndNesting code = Inr li"
  shows "loopCount li = length (loopInfos li)"
    and "logDetected li = list_ex (\<lambda>l. iterKind l = Log) (loopInfos li)"
    and "maxNestedN li = maxNestedNOf (nLoopsAtDepthOf (loopInfos li)) (maxDepthOf (loopInfos li))"
    and "\<forall>l \<in> set (loopInfos li). type l = For \<longrightarrow> header l \<noteq> None"
proof -
  from assms show "loopCount li = length (loopInfos li)"
    by (auto simp: detectLoopsAndNesting_def Let_def dest!: mapE_length split: option.splits sum.splits)
  from assms show "logDetected li = list_ex (\<lambda>l. iterKind l = Log) (loopInfos li)"
    by (auto simp: detectLoopsAndNesting_def Let_def split: option.splits sum.splits)
  from assms show "maxNestedN li = maxNestedNOf (nLoopsAtDepthOf (loopInfos li)) (maxDepthOf (loopInfos li))"
    by (auto simp: detectLoopsAndNesting_def Let_def split: option.splits sum.splits)
  from assms detectLoopsAndNesting_returns [of code]
  show "\<forall>l \<in> set (loopInfos li). type l = For \<longrightarrow> header l \<noteq> None" by auto
qed

lemma detectRecursion_found:
  "detectRecursion code = Inr ri \<Longrightarrow> found ri = (functions ri \<noteq> [])"
  by (auto simp: detectRecursion_def Let_def split: option.splits sum.splits)

lemma someE_True:
  "\<forall>x \<in> set xs. \<exists>b. f x = Inr b \<Longrightarrow> x \<in> set xs \<Longrightarrow> f x = Inr True \<Longrightarrow> someE f xs = Inr True"
  by (induction xs) auto

lemma nested_inner_returns:
  assumes "\<forall>l \<in> set lis. type l = For \<longrightarrow> header l \<noteq> None" and "outer \<in> set lis"
  shows "\<forall>inner \<in> set lis. \<exists>b.
     (if depth inner = depth outer + 1 \<and> type inner = For \<and> type outer = For
      then case header outer of None \<Rightarrow> Inl TypeError
           | Some ho \<Rightarrow>
               if rx_test lengthRx (lower ho)
               then case header inner of None \<Rightarrow> Inl TypeError
                    | Some hi \<Rightarrow> Inr (rx_test lengthRx (lower hi))
               else Inr False
      else Inr False) = Inr b"
  using assms by (auto split: option.splits)

lemma hasNestedSameArrayLoop_True:
  assumes hd: "\<forall>l \<in> set lis. type l = For \<longrightarrow> header l \<noteq> None"
    and "outer \<in> set lis" "inner \<in> set lis" "type outer = For" "type inner = For"
    and "depth inner = depth outer + 1"
    and "header outer = Some ho" "rx_test lengthRx (lower ho)"
    and "header inner = Some hi" "rx_test lengthRx (lower hi)"
  shows "hasNestedSameArrayLoop lis = Inr True"
  unfolding hasNestedSameArrayLoop_def
proof (rule someE_True [where x = outer])
  show "\<forall>x \<in> set lis. \<exists>b. someE (\<lambda>inner.
         if depth inner = depth x + 1 \<and> type inner = For \<and> type x = For
         then case header x of None \<Rightarrow> Inl TypeError
              | Some ho \<Rightarrow>
                  if rx_test lengthRx (lower ho)
                  then case header inner of None \<Rightarrow> Inl TypeError
                       | Some hi \<Rightarrow> Inr (rx_test lengthRx (lower hi))
                  else Inr False
         else Inr False) lis = Inr b"
  proof
    fix x assume "x \<in> set lis"
    from someE_returns [OF nested_inner_returns [OF hd this]]
    show "\<exists>b. someE (\<lambda>inner.
         if depth inner = depth x + 1 \<and> type inner = For \<and> type x = For
         then case header x of None \<Rightarrow> Inl TypeError
              | Some ho \<Rightarrow>
                  if rx_test lengthRx (lower ho)
                  then case header inner of None \<Rightarrow> Inl TypeError
                       | Some hi \<Rightarrow> Inr (rx_test lengthRx (lower hi))
                  else Inr False
         else Inr False) lis = Inr b" .
  qed
  show "outer \<in> set lis" by fact
  show "someE (\<lambda>inner.
         if depth inner = depth outer + 1 \<and> type inner = For \<and> type outer = For
         then case header outer of None \<Rightarrow> Inl TypeError
              | Some ho \<Rightarrow>
                  if rx_test lengthRx (lower ho)
                  then case header inner of None \<Rightarrow> Inl TypeError
                       | Some hi \<Rightarrow> Inr (rx_test lengthRx (lower hi))
                  else Inr False
         else Inr False) lis = Inr True"
    by (rule someE_True [where x = inner, OF nested_inner_returns [OF hd assms(2)]])
      (use assms in auto)
qed

text \<open>
  A text that is blank after trimming has nothing for the detectors to find; so a
  finding of theirs shows that the first rule of the decision does not apply.
\<close>

lemma findings_not_blank:
  assumes "detectRecursion (stripCommentsAndStrings rawCode) = Inr ri \<and> found ri \<or>
           detectLoopsAndNesting (stripCommentsAndStrings rawCode) = Inr li \<and> loopCount li > 0"
  shows "\<not> (rawCode = [] \<or> trim rawCode = [])"
proof
  assume "rawCode = [] \<or> trim rawCode = []"
  then have "list_all is_space (stripCommentsAndStrings rawCode)" by (rule blank_cleaned)
  then show False using assms space_loops space_recursion by fastforce
qed

lemma structural_verdict:
  assumes "\<not> (rawCode = [] \<or> trim rawCode = [])"
    and "detectKnownAlgorithms (stripCommentsAndStrings rawCode) = None"
    and "detectLoopsAndNesting (stripCommentsAndStrings rawCode) = Inr li"
    and "detectRecursion (stripCommentsAndStrings rawCode) = Inr ri"
  shows "analyzeComplexity rawCode =
    (if found ri then
       if list_ex (\<lambda>f. calls f > 1) (functions ri) then
         Inr \<lparr>time = str ''O(2^n) (possible exponential recursive branching)'',
              timeExplanation = str ''Recursion with multiple recursive calls detected '' @
                [(CHR 0x20, CHR 0x14)] @ str '' likely exponential.'',
              space = str ''O(n) (recursion stack)'',
              spaceExplanation = str ''Recursion stack grows with depth.'',
              details = Structure li ri\<rparr>
       else if loopCount li > 0 then
         Inr \<lparr>time = str ''O(n log n) or O(n * (loop cost))'',
              timeExplanation = str ''Single recursion detected together with loops '' @
                [(CHR 0x20, CHR 0x14)] @ str '' heuristic estimate O(n log n).'',
              space = str ''O(n + additional)'',
              spaceExplanation = str ''Recursion stack + container usage.'',
              details = Structure li ri\<rparr>
       else
         Inr \<lparr>time = str ''O(n) (single recursion)'',
              timeExplanation = str ''Single recursion detected '' @ [(CHR 0x20, CHR 0x14)] @
                str '' typically linear.'',
              space = str ''O(n)'',
              spaceExplanation = str ''Recursion stack.'',
              details = Structure li ri\<rparr>
     else if loopCount li > 0 then
       if logDetected li then
         if maxNestedN li = 0 then
           Inr \<lparr>time = str ''O(log n)'',
                timeExplanation = str ''Detected logarithmic loop pattern (divide-by-two behavior).'',
                space = str ''O(n)'',
                spaceExplanation = str ''Output array grows with input size.'',
                details = Structure li ri\<rparr>
         else
           Inr \<lparr>time = str ''O(n^'' @ digits (maxNestedN li) @ str '' log n)'',
                timeExplanation = str ''Detected '' @ digits (maxNestedN li) @
                  str '' nested loops with logarithmic behavior.'',
                space = str ''O(n)'',
                spaceExplanation = str ''Output array grows with input size.'',
                details = Structure li ri\<rparr>
       else
         (case hasNestedSameArrayLoop (loopInfos li) of
            Inl e \<Rightarrow> Inl e
          | Inr nested \<Rightarrow>
              if nested then
                Inr \<lparr>time = str ''O(n'' @ [(CHR 0x00, CHR 0xB2)] @ str '')'',
                     timeExplanation = str ''Detected two nested loops iterating over same array.'',
                     space = str ''O(n)'',
                     spaceExplanation = str ''Output array grows with input size.'',
                     details = Structure li ri\<rparr>
              else if maxNestedN li \<ge> 2 then
                Inr \<lparr>time = str ''O(n^'' @ digits (maxNestedN li) @ str '')'',
                     timeExplanation = str ''Detected '' @ digits (maxNestedN li) @
                       str '' nested loops iterating over input size.'',
                     space = str ''O(n)'',
                     spaceExplanation = str ''Output array grows with input size.'',
                     details = Structure li ri\<rparr>
              else if maxNestedN li = 1 then
                Inr \<lparr>time = str ''O(n)'',
                     timeExplanation = str ''Detected single loop iterating over input size.'',
                     space = str ''O(n)'',
                     spaceExplanation = str ''Output array grows with input size.'',
                     details = Structure li ri\<rparr>
              else
                Inr \<lparr>time = str ''O(1)'',
                     timeExplanation = str ''No loops or recursion detected (heuristic).'',
                     space = str ''O(n)'',
                     spaceExplanation = str ''Output array grows with input size.'',
                     details = Structure li ri\<rparr>)
     else
       Inr \<lparr>time = str ''O(1)'',
            timeExplanation = str ''No loops or recursion detected (heuristic).'',
            space = str ''O(1)'',
            spaceExplanation = str ''No obvious dynamic allocations detected.'',
            details = Structure li ri\<rparr>)"
  using assms unfolding analyzeComplexity_def Let_def by simp

section \<open>The known-pattern branch\<close>

lemma lower_all_space: "list_all is_space code \<Longrightarrow> list_all is_space (lower code)"
  by (induction code) (auto simp: lower_def lower_space)

lemma test_space:
  "first_not is_space r \<Longrightarrow> list_all is_space code \<Longrightarrow> \<not> rx_test r (lower code)"
  by (simp add: rx_test_def rx_match_def find_space lower_all_space)

lemma known_verdict:
  assumes "\<not> (rawCode = [] \<or> trim rawCode = [])"
    and "knownResults (stripCommentsAndStrings rawCode) = primary # others"
  shows "analyzeComplexity rawCode =
    Inr \<lparr>time = r_time primary,
         timeExplanation = str ''Detected known algorithm or strong hint: '' @ r_name primary @ str ''.'',
         space = r_space primary,
         spaceExplanation = r_space primary,
         details = Matches (map r_name (primary # others))\<rparr>"
  using assms unfolding analyzeComplexity_def Let_def detectKnownAlgorithms_def by simp

lemma known_None: "detectKnownAlgorithms code = None \<longleftrightarrow> knownResults code = []"
  by (simp add: detectKnownAlgorithms_def split: list.splits)

lemma catalog_filled:
  assumes "step \<in> set (catalog code c)"
    and "\<forall>e \<in> set rs. r_name e \<noteq> [] \<and> r_time e \<noteq> [] \<and> r_space e \<noteq> []"
  shows "\<forall>e \<in> set (step rs). r_name e \<noteq> [] \<and> r_time e \<noteq> [] \<and> r_space e \<noteq> []"
  using assms(1) unfolding catalog_def list.set insert_iff empty_iff
  by (elim disjE; simp add: push_if_def str_def assms(2))

lemma fold_keeps:
  assumes step: "\<And>step rs. step \<in> set steps \<Longrightarrow> Q rs \<Longrightarrow> Q (step rs)"
  shows "Q rs \<Longrightarrow> Q (fold (\<lambda>step. step) steps rs)"
  using step
proof (induction steps arbitrary: rs)
  case Nil
  then show ?case by simp
next
  case (Cons s steps)
  have s: "Q (s rs)" using Cons.prems(2) [of s rs] Cons.prems(1) by simp
  have rest: "\<And>step rs. step \<in> set steps \<Longrightarrow> Q rs \<Longrightarrow> Q (step rs)"
  proof -
    fix step rs assume "step \<in> set steps" "Q rs"
    then show "Q (step rs)" using Cons.prems(2) [of step rs] by simp
  qed
  have "Q (fold (\<lambda>step. step) steps (s rs))"
    by (rule Cons.IH) (fact s, fact rest)
  then show ?case by simp
qed

lemma knownResults_filled:
  "\<forall>e \<in> set (knownResults code). r_name e \<noteq> [] \<and> r_time e \<noteq> [] \<and> r_space e \<noteq> []"
proof -
  have "\<forall>e \<in> set (fold (\<lambda>step. step) (catalog code (lower code)) []).
          r_name e \<noteq> [] \<and> r_time e \<noteq> [] \<and> r_space e \<noteq> []"
  proof (rule fold_keeps [where Q = "\<lambda>rs. \<forall>e \<in> set rs. r_name e \<noteq> [] \<and> r_time e \<noteq> [] \<and> r_space e \<noteq> []"])
    fix step and rs :: "entry list"
    assume "step \<in> set (catalog code (lower code))"
      and "\<forall>e \<in> set rs. r_name e \<noteq> [] \<and> r_time e \<noteq> [] \<and> r_space e \<noteq> []"
    then show "\<forall>e \<in> set (step rs). r_name e \<noteq> [] \<and> r_time e \<noteq> [] \<and> r_space e \<noteq> []"
      by (rule catalog_filled)
  qed simp
  then show ?thesis by (simp add: knownResults_def resultsAfter_def)
qed

lemma str_filled: "str (c # s) \<noteq> []"
  by (simp add: str_def)

section \<open>The analyzer on given texts\<close>

text \<open>
  Each text below is evaluated piece by piece with the equations of the model: the
  sanitized text, the known-pattern matcher, the loop analysis and the recursion analysis.
\<close>

lemma eval_merge_dijkstra:
  "analyzeComplexity ''merge sort dijkstra'' =
     Inr \<lparr>time = str ''O(n log n)'',
          timeExplanation = str ''Detected known algorithm or strong hint: Merge Sort.'',
          space = str ''O(n)'',
          spaceExplanation = str ''O(n)'',
          details = Matches [str ''Merge Sort'', str (''Dijkstra'' @ [CHR 0x27] @ ''s algorithm'')]\<rparr>"
  by code_simp

lemma mention_merge_dijkstra:
  "js_includes (lower (stripCommentsAndStrings ''merge sort dijkstra'')) ''dijkstra''"
  by code_simp

lemma mention_loop_dijkstra:
  "js_includes (lower (stripCommentsAndStrings ''while (q) { dijkstra(g); }'')) ''dijkstra''"
  by code_simp

lemma before_loop_dijkstra:
  "resultsAfter 12 (stripCommentsAndStrings ''while (q) { dijkstra(g); }'') = []"
  by code_simp

lemma eval_prims:
  "analyzeComplexity ''function prims(a){for(i=0;i<a.length;i++){for(j=0;j<a.length;j++){}}}'' =
     Inr \<lparr>time = str ''O(E log V)'',
          timeExplanation =
            str (''Detected known algorithm or strong hint: Prim'' @ [CHR 0x27] @ ''s algorithm.''),
          space = str ''O(V + E)'',
          spaceExplanation = str ''O(V + E)'',
          details = Matches [str (''Prim'' @ [CHR 0x27] @ ''s algorithm'')]\<rparr>"
  by code_simp

lemma loops_prims:
  "detectLoopsAndNesting (stripCommentsAndStrings
      ''function prims(a){for(i=0;i<a.length;i++){for(j=0;j<a.length;j++){}}}'') =
     Inr \<lparr>loopCount = 2, maxDepth = 2, maxNestedN = 1, logDetected = False,
          loopInfos =
            [\<lparr>type = For, header = Some ''i=0;i<a.length;i++'', pos = 18, depth = 1, iterKind = N\<rparr>,
             \<lparr>type = For, header = Some ''j=0;j<a.length;j++'', pos = 42, depth = 2, iterKind = N\<rparr>]\<rparr>"
  by code_simp

lemma clean_nested:
  "stripCommentsAndStrings ''function g(a){for(i=0;i<a.length;i++){for(j=0;j<a.length;j++){}}}'' =
     ''function g(a){for(i=0;i<a.length;i++){for(j=0;j<a.length;j++){}}}''"
  by code_simp

lemma known_nested:
  "detectKnownAlgorithms ''function g(a){for(i=0;i<a.length;i++){for(j=0;j<a.length;j++){}}}'' = None"
  by code_simp

lemma loops_nested:
  "detectLoopsAndNesting ''function g(a){for(i=0;i<a.length;i++){for(j=0;j<a.length;j++){}}}'' =
     Inr \<lparr>loopCount = 2, maxDepth = 2, maxNestedN = 1, logDetected = False,
          loopInfos =
            [\<lparr>type = For, header = Some ''i=0;i<a.length;i++'', pos = 14, depth = 1, iterKind = N\<rparr>,
             \<lparr>type = For, header = Some ''j=0;j<a.length;j++'', pos = 38, depth = 2, iterKind = N\<rparr>]\<rparr>"
  by code_simp

lemma recursion_nested:
  "detectRecursion ''function g(a){for(i=0;i<a.length;i++){for(j=0;j<a.length;j++){}}}'' =
     Inr \<lparr>found = False, functions = []\<rparr>"
  by code_simp

lemma length_headers:
  "rx_test lengthRx (lower ''i=0;i<a.length;i++'')" "rx_test lengthRx (lower ''j=0;j<a.length;j++'')"
  by code_simp+

lemma eval_mergesort:
  "analyzeComplexity ''function mergesort(a) { mergesort(l); mergesort(r); }'' =
     Inr \<lparr>time = str ''O(n log n)'',
          timeExplanation = str ''Detected known algorithm or strong hint: Merge Sort.'',
          space = str ''O(n)'',
          spaceExplanation = str ''O(n)'',
          details = Matches [str ''Merge Sort'']\<rparr>"
  by code_simp

lemma recursion_mergesort:
  "detectRecursion (stripCommentsAndStrings ''function mergesort(a) { mergesort(l); mergesort(r); }'') =
     Inr \<lparr>found = True,
          functions = [\<lparr>name = Some ''mergesort'', calls = 2\<rparr>, \<lparr>name = Some ''mergesort'', calls = 2\<rparr>]\<rparr>"
  by code_simp

lemma loops_mergesort:
  "detectLoopsAndNesting (stripCommentsAndStrings ''function mergesort(a) { mergesort(l); mergesort(r); }'') =
     Inr \<lparr>loopCount = 0, maxDepth = 0, maxNestedN = 0, logDetected = False, loopInfos = []\<rparr>"
  by code_simp

lemma clean_two_calls:
  "stripCommentsAndStrings ''function f(n) { return f(n - 1) + f(n - 2); }'' =
     ''function f(n) { return f(n - 1) + f(n - 2); }''"
  by code_simp

lemma known_two_calls:
  "detectKnownAlgorithms ''function f(n) { return f(n - 1) + f(n - 2); }'' = None"
  by code_simp

lemma recursion_two_calls:
  "detectRecursion ''function f(n) { return f(n - 1) + f(n - 2); }'' =
     Inr \<lparr>found = True,
          functions = [\<lparr>name = Some ''f'', calls = 2\<rparr>, \<lparr>name = Some ''f'', calls = 2\<rparr>]\<rparr>"
  by code_simp

lemma clean_one_call:
  "stripCommentsAndStrings ''function f(n) { return f(n - 1); }'' = ''function f(n) { return f(n - 1); }''"
  by code_simp

lemma known_one_call:
  "detectKnownAlgorithms ''function f(n) { return f(n - 1); }'' = None"
  by code_simp

lemma recursion_one_call:
  "detectRecursion ''function f(n) { return f(n - 1); }'' =
     Inr \<lparr>found = True,
          functions = [\<lparr>name = Some ''f'', calls = 1\<rparr>, \<lparr>name = Some ''f'', calls = 1\<rparr>]\<rparr>"
  by code_simp

lemma loops_one_call:
  "detectLoopsAndNesting ''function f(n) { return f(n - 1); }'' =
     Inr \<lparr>loopCount = 0, maxDepth = 0, maxNestedN = 0, logDetected = False, loopInfos = []\<rparr>"
  by code_simp

lemma eval_dijkstra:
  "analyzeComplexity ''dijkstra'' =
     Inr \<lparr>time = str ''O((V + E) log V)'',
          timeExplanation =
            str (''Detected known algorithm or strong hint: Dijkstra'' @ [CHR 0x27] @ ''s algorithm.''),
          space = str ''O(V + E)'',
          spaceExplanation = str ''O(V + E)'',
          details = Matches [str (''Dijkstra'' @ [CHR 0x27] @ ''s algorithm'')]\<rparr>"
  by code_simp

lemma known_x: "knownResults (stripCommentsAndStrings ''x'') = []"
  by code_simp

lemma known_dijkstra: "knownResults (stripCommentsAndStrings ''dijkstra'') \<noteq> []"
  by code_simp

lemma eval_one_call:
  "analyzeComplexity ''function f(n) { return f(n - 1); }'' =
     Inr \<lparr>time = str ''O(n) (single recursion)'',
          timeExplanation = str ''Single recursion detected '' @ [(CHR 0x20, CHR 0x14)] @
            str '' typically linear.'',
          space = str ''O(n)'',
          spaceExplanation = str ''Recursion stack.'',
          details = Structure
            \<lparr>loopCount = 0, maxDepth = 0, maxNestedN = 0, logDetected = False, loopInfos = []\<rparr>
            \<lparr>found = True,
             functions = [\<lparr>name = Some ''f'', calls = 1\<rparr>, \<lparr>name = Some ''f'', calls = 1\<rparr>]\<rparr>\<rparr>"
  by code_simp

lemma not_blank_x: "\<not> (''x'' = [] \<or> trim ''x'' = [])"
  by code_simp

section \<open>The Fibonacci entries\<close>

lemma first_not_fibRx: "first_not is_space fibRx"
  by (simp add: fibRx_def word_rx_def is_space_def)

lemma catalog_no_naive:
  assumes "step \<in> set (catalog code c)" and "rx_test memoRx c"
    and "str ''Naive Recursive Fibonacci'' \<notin> r_name ` set rs"
  shows "str ''Naive Recursive Fibonacci'' \<notin> r_name ` set (step rs)"
  using assms(1) unfolding catalog_def list.set insert_iff empty_iff
  by (elim disjE; simp add: push_if_def assms(2) assms(3); simp add: str_def)

lemma catalog_no_memo:
  assumes "step \<in> set (catalog code c)" and "\<not> rx_test memoRx c"
    and "str ''Memoized Fibonacci (DP)'' \<notin> r_name ` set rs"
  shows "str ''Memoized Fibonacci (DP)'' \<notin> r_name ` set (step rs)"
  using assms(1) unfolding catalog_def list.set insert_iff empty_iff
  by (elim disjE; simp add: push_if_def assms(2) assms(3); simp add: str_def)

lemma knownResults_no_naive:
  assumes "rx_test memoRx (lower code)"
  shows "str ''Naive Recursive Fibonacci'' \<notin> r_name ` set (knownResults code)"
proof -
  have "str ''Naive Recursive Fibonacci'' \<notin> r_name ` set (fold (\<lambda>step. step) (catalog code (lower code)) [])"
  proof (rule fold_keeps [where Q = "\<lambda>rs. str ''Naive Recursive Fibonacci'' \<notin> r_name ` set rs"])
    fix step and rs :: "entry list"
    assume "step \<in> set (catalog code (lower code))"
      and "str ''Naive Recursive Fibonacci'' \<notin> r_name ` set rs"
    then show "str ''Naive Recursive Fibonacci'' \<notin> r_name ` set (step rs)"
      using catalog_no_naive assms by blast
  qed simp
  then show ?thesis by (simp add: knownResults_def resultsAfter_def)
qed

lemma knownResults_no_memo:
  assumes "\<not> rx_test memoRx (lower code)"
  shows "str ''Memoized Fibonacci (DP)'' \<notin> r_name ` set (knownResults code)"
proof -
  have "str ''Memoized Fibonacci (DP)'' \<notin> r_name ` set (fold (\<lambda>step. step) (catalog code (lower code)) [])"
  proof (rule fold_keeps [where Q = "\<lambda>rs. str ''Memoized Fibonacci (DP)'' \<notin> r_name ` set rs"])
    fix step and rs :: "entry list"
    assume "step \<in> set (catalog code (lower code))"
      and "str ''Memoized Fibonacci (DP)'' \<notin> r_name ` set rs"
    then show "str ''Memoized Fibonacci (DP)'' \<notin> r_name ` set (step rs)"
      using catalog_no_memo assms by blast
  qed simp
  then show ?thesis by (simp add: knownResults_def resultsAfter_def)
qed

lemma fib_step:
  assumes "rx_test fibRx (lower code)"
  shows "resultsAfter 18 code = resultsAfter 17 code @
     [if rx_test memoRx (lower code)
      then \<lparr>r_name = str ''Memoized Fibonacci (DP)'', r_time = str ''O(n)'', r_space = str ''O(n)''\<rparr>
      else \<lparr>r_name = str ''Naive Recursive Fibonacci'', r_time = str ''O(2^n)'', r_space = str ''O(n)''\<rparr>]"
proof -
  have "resultsAfter 18 code = (catalog code (lower code) ! 17) (resultsAfter 17 code)"
    using resultsAfter_Suc [of 17 code] by simp
  then show ?thesis using assms by (simp add: catalog_def)
qed

lemma eval_fib_mention: "rx_test fibRx (lower (stripCommentsAndStrings ''memo fib(n)''))"
  by code_simp

lemma eval_fib_memo: "rx_test memoRx (lower (stripCommentsAndStrings ''memo fib(n)''))"
  by code_simp

lemma eval_fib_before: "resultsAfter 17 (stripCommentsAndStrings ''memo fib(n)'') = []"
  by code_simp

section \<open>Patterns read as statements about the text\<close>

lemma starts_with_take: "starts_with s w = (take (length w) s = w)"
  by (induction s w rule: starts_with.induct) auto

lemma find_positions:
  "i \<le> length s \<Longrightarrow>
   (rx_find r i (if i = 0 then None else Some (s ! (i - 1))) (drop i s) \<noteq> None) =
   (\<exists>j. i \<le> j \<and> j \<le> length s \<and> rx_run r (state_at s j) \<noteq> [])"
proof (induction "length s - i" arbitrary: i)
  case 0
  then have i: "i = length s" by simp
  have "(\<exists>j. i \<le> j \<and> j \<le> length s \<and> rx_run r (state_at s j) \<noteq> []) =
        (rx_run r (state_at s i) \<noteq> [])"
    using i by (auto simp: le_antisym)
  then show ?case
    using i by (simp add: rx_find.simps [of r _ _ "[]"] rx_at_def state_at_def split: list.splits)
next
  case (Suc n)
  then have lt: "i < length s" by simp
  have d: "drop i s = s ! i # drop (Suc i) s"
    using lt by (simp add: Cons_nth_drop_Suc)
  have IH: "(rx_find r (Suc i) (Some (s ! i)) (drop (Suc i) s) \<noteq> None) =
      (\<exists>j. Suc i \<le> j \<and> j \<le> length s \<and> rx_run r (state_at s j) \<noteq> [])"
    using Suc.hyps(1) [of "Suc i"] Suc.hyps(2) lt by simp
  have split: "(\<exists>j. i \<le> j \<and> j \<le> length s \<and> rx_run r (state_at s j) \<noteq> []) =
      (rx_run r (state_at s i) \<noteq> [] \<or>
       (\<exists>j. Suc i \<le> j \<and> j \<le> length s \<and> rx_run r (state_at s j) \<noteq> []))"
  proof
    assume "\<exists>j. i \<le> j \<and> j \<le> length s \<and> rx_run r (state_at s j) \<noteq> []"
    then obtain j where j: "i \<le> j" "j \<le> length s" "rx_run r (state_at s j) \<noteq> []" by blast
    show "rx_run r (state_at s i) \<noteq> [] \<or>
       (\<exists>j. Suc i \<le> j \<and> j \<le> length s \<and> rx_run r (state_at s j) \<noteq> [])"
    proof (cases "j = i")
      case True
      then show ?thesis using j by simp
    next
      case False
      then have "Suc i \<le> j" using j(1) by simp
      then show ?thesis using j by blast
    qed
  next
    assume "rx_run r (state_at s i) \<noteq> [] \<or>
       (\<exists>j. Suc i \<le> j \<and> j \<le> length s \<and> rx_run r (state_at s j) \<noteq> [])"
    then show "\<exists>j. i \<le> j \<and> j \<le> length s \<and> rx_run r (state_at s j) \<noteq> []"
    proof
      assume "rx_run r (state_at s i) \<noteq> []"
      then show ?thesis using lt by (intro exI [of _ i]) simp
    next
      assume "\<exists>j. Suc i \<le> j \<and> j \<le> length s \<and> rx_run r (state_at s j) \<noteq> []"
      then obtain j where "Suc i \<le> j" "j \<le> length s" "rx_run r (state_at s j) \<noteq> []" by blast
      then show ?thesis by (intro exI [of _ j]) simp
    qed
  qed
  show ?case
  proof (cases "rx_run r (state_at s i)")
    case Nil
    then have "rx_at r (i, (if i = 0 then None else Some (s ! (i - 1))), drop i s, []) = None"
      by (simp add: rx_at_def state_at_def)
    then have "rx_find r i (if i = 0 then None else Some (s ! (i - 1))) (drop i s) =
        rx_find r (Suc i) (Some (s ! i)) (drop (Suc i) s)"
      by (subst rx_find.simps) (simp add: d)
    then show ?thesis using IH split Nil by simp
  next
    case (Cons m ms)
    then have "rx_at r (i, (if i = 0 then None else Some (s ! (i - 1))), drop i s, []) = Some m"
      by (simp add: rx_at_def state_at_def)
    then have "rx_find r i (if i = 0 then None else Some (s ! (i - 1))) (drop i s) \<noteq> None"
      by (subst rx_find.simps) (simp split: prod.splits)
    then show ?thesis using split Cons by simp
  qed
qed

lemma test_positions:
  "rx_test r s = list_ex (\<lambda>j. rx_run r (state_at s j) \<noteq> []) [0..<Suc (length s)]"
proof -
  have "rx_test r s = (\<exists>j. j \<le> length s \<and> rx_run r (state_at s j) \<noteq> [])"
    using find_positions [of 0 s r] by (simp add: rx_test_def rx_match_def)
  also have "\<dots> = list_ex (\<lambda>j. rx_run r (state_at s j) \<noteq> []) [0..<Suc (length s)]"
    unfolding list_ex_iff set_upt by (auto simp: less_Suc_eq_le)
  finally show ?thesis .
qed

lemma run_lit:
  "rx_run (lit w) (i, p, rs, g) =
     (if starts_with rs w
      then [(i + length w, (if w = [] then p else Some (last w)), drop (length w) rs, g)]
      else [])"
proof (induction w arbitrary: i p rs)
  case Nil
  then show ?case by simp
next
  case (Cons c w)
  then show ?case by (cases rs) auto
qed

lemma has_at_le:
  assumes "has_at s i w" and "w \<noteq> []"
  shows "i + length w \<le> length s"
proof -
  from assms(1) have "length (take (length w) (drop i s)) = length w"
    by (simp add: has_at_def)
  then have "length w \<le> length s - i" by simp
  moreover have "0 < length w" using assms(2) by simp
  ultimately show ?thesis by arith
qed

lemma run_lit_at:
  "w \<noteq> [] \<Longrightarrow>
   rx_run (lit w) (state_at s i) = (if has_at s i w then [state_at s (i + length w)] else [])"
proof (cases "has_at s i w")
  case False
  then show ?thesis by (simp add: state_at_def run_lit starts_with_take has_at_def)
next
  case True
  assume w: "w \<noteq> []"
  from has_at_le [OF True w] have le: "i + length w \<le> length s" .
  from True have tk: "take (length w) (drop i s) = w" by (simp add: has_at_def)
  have "last w = s ! (i + length w - 1)"
  proof -
    have "last w = w ! (length w - 1)" using w by (simp add: last_conv_nth)
    also have "\<dots> = take (length w) (drop i s) ! (length w - 1)" using tk by simp
    also have "\<dots> = s ! (i + (length w - 1))" using w le by simp
    finally show ?thesis using w by (simp add: Suc_leI)
  qed
  then show ?thesis
    using True w by (simp add: state_at_def run_lit starts_with_take has_at_def add.commute)
qed

lemma run_Bnd_at:
  "i \<le> length s \<Longrightarrow> rx_run Bnd (state_at s i) = (if boundary s i then [state_at s i] else [])"
proof -
  assume le: "i \<le> length s"
  have "word_after (state_at s i) = word_at s i"
    by (cases "i < length s") (simp_all add: state_at_def word_at_def Cons_nth_drop_Suc [symmetric])
  moreover have "word_before (state_at s i) = (0 < i \<and> word_at s (i - 1))"
    using le by (auto simp: state_at_def word_at_def)
  ultimately show ?thesis by (simp add: boundary_def)
qed

lemma run_bnd_lit:
  assumes "i \<le> length s" and "w \<noteq> []"
  shows "rx_run (Seq Bnd (lit w)) (state_at s i) =
     (if boundary s i \<and> has_at s i w then [state_at s (i + length w)] else [])"
  using assms by (simp add: run_Bnd_at run_lit_at del: rx_run.simps(8) lit.simps)

lemma run_lit_bnd:
  assumes "w \<noteq> []"
  shows "rx_run (Seq (lit w) Bnd) (state_at s i) =
     (if has_at s i w \<and> boundary s (i + length w) then [state_at s (i + length w)] else [])"
  using assms has_at_le [of s i w]
  by (simp add: run_Bnd_at run_lit_at del: rx_run.simps(8) lit.simps)

lemma run_word_rx:
  assumes "i \<le> length s" and "w \<noteq> []"
  shows "rx_run (Seq Bnd (Seq (lit w) Bnd)) (state_at s i) =
     (if boundary s i \<and> has_at s i w \<and> boundary s (i + length w)
      then [state_at s (i + length w)] else [])"
  using assms run_lit_bnd [OF assms(2), of s i]
  by (simp add: run_Bnd_at del: rx_run.simps lit.simps add: rx_run.simps(3))

lemma run_Eps: "rx_run Eps = (\<lambda>st. [st])"
  by (rule ext) simp

lemma seq_Eps: "rx_run (Seq a Eps) = rx_run a"
  by (rule ext) (simp add: run_Eps)

lemma seq_seq_Eps: "rx_run (Seq a (Seq b Eps)) = rx_run (Seq a b)"
  by (rule ext) (simp add: seq_Eps)

lemma fibRx_at:
  assumes "i \<le> length c"
  shows "(rx_run fibRx (state_at c i) \<noteq> []) =
      (boundary c i \<and> has_at c i ''fib('' \<or>
       boundary c i \<and> has_at c i ''fibonacci'' \<and> boundary c (i + 9))"
proof -
  have "rx_run fibRx (state_at c i) =
      rx_run (Seq Bnd (lit ''fib('')) (state_at c i) @
      rx_run (Seq Bnd (Seq (lit ''fibonacci'') Bnd)) (state_at c i)"
    by (simp add: fibRx_def word_rx_def seq_Eps seq_seq_Eps del: rx_run.simps lit.simps add: rx_run.simps(3,4))
  then show ?thesis
    using run_bnd_lit [OF assms, of "''fib(''"] run_word_rx [OF assms, of "''fibonacci''"]
    by (auto simp add: eval_nat_numeral simp del: rx_run.simps lit.simps)
qed

lemma fibRx_reads: "rx_test fibRx c = fibonacci_mention c"
  unfolding test_positions fibonacci_mention_def list_ex_iff set_upt
  using fibRx_at [of _ c] by (auto simp: less_Suc_eq_le)

lemma memoRx_at:
  assumes "i \<le> length c"
  shows "(rx_run memoRx (state_at c i) \<noteq> []) =
      (boundary c i \<and> has_at c i ''mem'' \<or>
       has_at c i ''memo'' \<and> boundary c (i + 4) \<or>
       boundary c i \<and> has_at c i ''cache'' \<and> boundary c (i + 5) \<or>
       boundary c i \<and> has_at c i ''dp'' \<and> boundary c (i + 2))"
proof -
  have "rx_run memoRx (state_at c i) =
      rx_run (Seq Bnd (lit ''mem'')) (state_at c i) @
      rx_run (Seq (lit ''memo'') Bnd) (state_at c i) @
      rx_run (Seq Bnd (Seq (lit ''cache'') Bnd)) (state_at c i) @
      rx_run (Seq Bnd (Seq (lit ''dp'') Bnd)) (state_at c i)"
    by (simp add: memoRx_def word_rx_def seq_Eps seq_seq_Eps del: rx_run.simps lit.simps add: rx_run.simps(3,4))
  then show ?thesis
    using run_bnd_lit [OF assms, of "''mem''"] run_lit_bnd [of "''memo''" c i]
      run_word_rx [OF assms, of "''cache''"] run_word_rx [OF assms, of "''dp''"]
    by (auto simp add: eval_nat_numeral simp del: rx_run.simps lit.simps)
qed

lemma memoRx_reads: "rx_test memoRx c = memo_keyword c"
  unfolding test_positions memo_keyword_def list_ex_iff set_upt
  using memoRx_at [of _ c] by (auto simp: less_Suc_eq_le)

lemma fib_mention_memo: "fibonacci_mention (lower (stripCommentsAndStrings ''memo fib(n)''))"
  by code_simp

lemma fib_keyword_memo: "memo_keyword (lower (stripCommentsAndStrings ''memo fib(n)''))"
  by code_simp

lemma fib_mention_plain: "fibonacci_mention (lower (stripCommentsAndStrings ''fib(n)''))"
  by code_simp

lemma fib_keyword_plain: "\<not> memo_keyword (lower (stripCommentsAndStrings ''fib(n)''))"
  by code_simp

lemma fib_before_plain: "resultsAfter 17 (stripCommentsAndStrings ''fib(n)'') = []"
  by code_simp

section \<open>The sanitizer keeps what stands before the first comment or string\<close>

lemma first_not_sanitizer:
  "first_not plain blockCommentRx" "first_not plain lineCommentRx"
  "first_not plain hashCommentRx" "first_not plain stringLiteralRx"
  by (auto simp: blockCommentRx_def lineCommentRx_def hashCommentRx_def stringLiteralRx_def
        plain_def)

lemma at_first_not:
  assumes "first_not Q r" and "Q c"
  shows "rx_at r (i, p, c # cs, g) = None"
proof (rule ccontr)
  assume "rx_at r (i, p, c # cs, g) \<noteq> None"
  then obtain m where "m \<in> set (rx_run r (i, p, c # cs, g))" using at_in_run by fastforce
  from run_first_not [OF assms(1) this] assms(2) show False by simp
qed

lemma replace_from_prefix:
  assumes "first_not Q r"
  shows "list_all Q a \<Longrightarrow> \<exists>b'. replace_from r rep i p (a @ b) = a @ b'"
proof (induction a arbitrary: i p)
  case Nil
  then show ?case by simp
next
  case (Cons c a)
  then have "rx_at r (i, p, c # a @ b, []) = None"
    using at_first_not [OF assms] by simp
  then have "replace_from r rep i p ((c # a) @ b) = c # replace_from r rep (Suc i) (Some c) (a @ b)"
    by (simp add: replace_from.simps [of r rep i p "c # a @ b"])
  moreover obtain b' where "replace_from r rep (Suc i) (Some c) (a @ b) = a @ b'"
    using Cons by auto
  ultimately show ?case by simp
qed

lemma strip_prefix:
  assumes "list_all plain a"
  shows "\<exists>b'. stripCommentsAndStrings (a @ b) = a @ b'"
proof -
  obtain b1 where b1: "replace_all blockCommentRx '' '' (a @ b) = a @ b1"
    using replace_from_prefix [OF first_not_sanitizer(1) assms, where rep = "'' ''" and i = 0
        and p = None and b = b]
    unfolding replace_all_def by blast
  obtain b2 where b2: "replace_all lineCommentRx '' '' (a @ b1) = a @ b2"
    using replace_from_prefix [OF first_not_sanitizer(2) assms, where rep = "'' ''" and i = 0
        and p = None and b = b1]
    unfolding replace_all_def by blast
  obtain b3 where b3: "replace_all hashCommentRx '' '' (a @ b2) = a @ b3"
    using replace_from_prefix [OF first_not_sanitizer(3) assms, where rep = "'' ''" and i = 0
        and p = None and b = b2]
    unfolding replace_all_def by blast
  obtain b4 where b4: "replace_all stringLiteralRx '' '' (a @ b3) = a @ b4"
    using replace_from_prefix [OF first_not_sanitizer(4) assms, where rep = "'' ''" and i = 0
        and p = None and b = b3]
    unfolding replace_all_def by blast
  show ?thesis by (simp add: stripCommentsAndStrings_def b1 b2 b3 b4)
qed

lemma starts_with_longer: "starts_with s w \<Longrightarrow> starts_with (s @ t) w"
  by (induction s w rule: starts_with.induct) auto

lemma includes_longer: "js_includes s w \<Longrightarrow> js_includes (s @ t) w"
proof (induction s)
  case Nil
  then show ?case by (cases t) simp_all
next
  case (Cons c s)
  then show ?case using starts_with_longer [of "c # s" w t] by auto
qed

lemma mention_before_delimiters:
  assumes "list_all plain a" and "js_includes (lower a) w"
  shows "js_includes (lower (stripCommentsAndStrings (a @ b))) w"
proof -
  obtain b' where "stripCommentsAndStrings (a @ b) = a @ b'"
    using strip_prefix [OF assms(1)] by blast
  then show ?thesis using includes_longer [OF assms(2)] by (simp add: lower_def)
qed

lemma eval_url_dijkstra:
  "analyzeComplexity (''u = '' @ [CHR 0x22] @ ''http://x'' @ [CHR 0x22] @ ''; dijkstra(g)'') =
     Inr \<lparr>time = str ''O(1)'',
          timeExplanation = str ''No loops or recursion detected (heuristic).'',
          space = str ''O(1)'',
          spaceExplanation = str ''No obvious dynamic allocations detected.'',
          details = Structure
            \<lparr>loopCount = 0, maxDepth = 0, maxNestedN = 0, logDetected = False, loopInfos = []\<rparr>
            \<lparr>found = False, functions = []\<rparr>\<rparr>"
  by code_simp

lemma plain_call_dijkstra: "list_all plain ''dijkstra(g); ''"
  by code_simp

lemma lower_call_dijkstra: "js_includes (lower ''dijkstra(g); '') ''dijkstra''"
  by code_simp

lemma before_call_dijkstra:
  "resultsAfter 12 (stripCommentsAndStrings (''dijkstra(g); '' @ ''// shortest paths'')) = []"
  by code_simp

section \<open>Places of a match are places of the text\<close>

lemma follows_refl: "follows a a"
  by (simp add: follows_def adv_refl eaten_self)

lemma follows_trans:
  assumes "follows a b" and "follows b c"
  shows "follows a c"
proof -
  from assms have ab: "adv a b" and bc: "adv b c" by (simp_all add: follows_def)
  have e: "eaten a c = eaten a b @ eaten b c" using ab bc by (rule eaten_trans)
  have "adv a c" using ab bc by (rule adv_trans)
  moreover have "ms_prev c = (if eaten a c = [] then ms_prev a else Some (last (eaten a c)))"
    using assms by (simp add: follows_def e)
  ultimately show ?thesis by (simp add: follows_def)
qed

lemma run_follows: "st' \<in> set (rx_run r st) \<Longrightarrow> follows st st'"
proof (induction r arbitrary: st st')
  case (Chr P)
  then show ?case
    by (cases st) (auto simp: follows_def adv_def eaten_def split: list.splits if_splits)
next
  case Eps
  then show ?case by (simp add: follows_refl)
next
  case (Seq a b)
  from Seq.prems obtain m where "m \<in> set (rx_run a st)" "st' \<in> set (rx_run b m)" by auto
  then show ?case using Seq.IH follows_trans by blast
next
  case (Alt a b)
  from Alt.prems have "st' \<in> set (rx_run a st) \<or> st' \<in> set (rx_run b st)" by simp
  then show ?case using Alt.IH by blast
next
  case (Star a)
  from Star.prems have mem: "st' \<in> set (star_iter (rx_run a) (ms_rest st) st)" by simp
  have step: "\<And>x y. y \<in> set (rx_run a x) \<Longrightarrow> follows x y"
    using Star.IH by simp
  show ?case
    by (rule star_iter_rel [where R = follows, OF follows_refl follows_trans step mem])
next
  case (Lazy a)
  from Lazy.prems have mem: "st' \<in> set (lazy_iter (rx_run a) (ms_rest st) st)" by simp
  have step: "\<And>x y. y \<in> set (rx_run a x) \<Longrightarrow> follows x y"
    using Lazy.IH by simp
  show ?case
    by (rule lazy_iter_rel [where R = follows, OF follows_refl follows_trans step mem])
next
  case (Grp k a)
  from Grp.prems obtain m where m: "m \<in> set (rx_run a st)" "ms_pos st' = ms_pos m"
    "ms_rest st' = ms_rest m" "ms_prev st' = ms_prev m"
    by (cases st) auto
  have "follows st m" using Grp.IH m(1) by simp
  then show ?case using m(2,3,4) by (simp add: follows_def adv_def eaten_def)
next
  case Bnd
  then show ?case by (auto simp: follows_refl split: if_splits)
next
  case Eol
  then show ?case by (auto simp: follows_refl split: list.splits if_splits)
next
  case (NotAhead a)
  then show ?case by (auto simp: follows_refl split: list.splits)
next
  case (Back k)
  obtain i p rs g where st: "st = (i, p, rs, g)" by (cases st)
  show ?case
  proof (cases "map_of g k")
    case None
    with Back st show ?thesis by (simp add: follows_refl)
  next
    case (Some t)
    with Back st have sw: "starts_with rs t"
      and st': "st' = (i + length t, (if t = [] then p else Some (last t)), drop (length t) rs, g)"
      by (auto split: if_splits)
    from starts_with_append [OF sw] obtain rest where rs: "rs = t @ rest"
      and rest: "drop (length t) rs = rest" by blast
    have st'': "st' = (i + length t, (if t = [] then p else Some (last t)), rest, g)"
      using st' rest by simp
    have "adv st st'" unfolding adv_def st st'' using rs by simp
    moreover have "eaten st st' = t"
      unfolding eaten_def st st'' using rs by simp
    ultimately show ?thesis by (cases "t = []") (simp_all add: follows_def st st'')
  qed
qed

text \<open>
  A match that starts at index \<open>i\<close> of a text \<open>s\<close> ends at an index \<open>e\<close> of \<open>s\<close>, not
  before \<open>i\<close>.
\<close>

lemma follows_state_at:
  assumes "follows (state_at s i) st'" and "i \<le> length s"
  shows "\<exists>e g. st' = (e, (if e = 0 then None else Some (s ! (e - 1))), drop e s, g) \<and>
           i \<le> e \<and> e \<le> length s \<and> eaten (state_at s i) st' = take (e - i) (drop i s)"
proof -
  obtain e q rs' g where st': "st' = (e, q, rs', g)" by (cases st')
  from assms(1) obtain t where t: "drop i s = t @ rs'" "e = i + length t"
    by (auto simp: follows_def adv_def state_at_def st')
  have len: "length (drop i s) = length t + length rs'" using t(1) by (metis length_append)
  then have e_le: "e \<le> length s" using t(2) assms(2) by simp
  have rs': "rs' = drop e s"
    using t by (metis add.commute append_eq_conv_conj drop_drop)
  have eat: "eaten (state_at s i) st' = t"
    using t by (simp add: eaten_def state_at_def st')
  have tk: "t = take (e - i) (drop i s)" using t by simp
  have q: "q = (if e = 0 then None else Some (s ! (e - 1)))"
  proof (cases "t = []")
    case True
    then show ?thesis using assms(1) eat t(2) by (simp add: follows_def state_at_def st')
  next
    case False
    then have "q = Some (last t)" using assms(1) eat by (simp add: follows_def st')
    moreover have "last t = s ! (e - 1)"
    proof -
      have "last t = t ! (length t - 1)" using False by (simp add: last_conv_nth)
      also have "\<dots> = drop i s ! (length t - 1)"
        using False t(1) by (simp add: nth_append)
      also have "\<dots> = s ! (i + (length t - 1))" using assms(2) len False by simp
      finally show ?thesis using False t(2) by (simp add: Suc_leI)
    qed
    moreover have "e \<noteq> 0" using False t(2) by simp
    ultimately show ?thesis by simp
  qed
  have "st' = (e, (if e = 0 then None else Some (s ! (e - 1))), drop e s, g)"
    unfolding st' using q rs' by blast
  moreover have "i \<le> e" using t(2) by simp
  moreover have "eaten (state_at s i) st' = take (e - i) (drop i s)"
    using eat tk by (rule trans)
  ultimately show ?thesis using e_le by blast
qed

lemma run_state_at:
  assumes "st' \<in> set (rx_run r (state_at s i))" and "i \<le> length s"
  shows "\<exists>e g. st' = (e, (if e = 0 then None else Some (s ! (e - 1))), drop e s, g) \<and>
           i \<le> e \<and> e \<le> length s \<and> eaten (state_at s i) st' = take (e - i) (drop i s)"
  using follows_state_at [OF run_follows [OF assms(1)] assms(2)] .

section \<open>The loops on exec, on the store and without it\<close>

declare exec_while.simps [simp del]

lemma find_None_loop: "rx_find r i p rs = None \<Longrightarrow> exec_loop r i p rs = Some []"
proof (induction rs arbitrary: i p)
  case Nil
  then show ?case
    by (simp add: rx_find.simps [of r i p "[]"] exec_loop.simps [of r i p "[]"]
          split: option.splits prod.splits)
next
  case (Cons c cs)
  then show ?case
    by (simp add: rx_find.simps [of r i p "c # cs"] exec_loop.simps [of r i p "c # cs"]
          split: option.splits prod.splits)
qed

lemma at_state_at:
  assumes "rx_at r (state_at s i) = Some st'" and "i \<le> length s"
  shows "\<exists>e g. st' = (e, (if e = 0 then None else Some (s ! (e - 1))), drop e s, g) \<and>
           i \<le> e \<and> e \<le> length s"
  using run_state_at [OF at_in_run [OF assms(1)] assms(2)] by blast

lemma find_Some_at:
  "i \<le> length s \<Longrightarrow>
   rx_find r i (if i = 0 then None else Some (s ! (i - 1))) (drop i s) = Some m \<Longrightarrow>
   \<exists>j e g. i \<le> j \<and> j \<le> e \<and> e \<le> length s \<and>
     rx_at r (state_at s j) = Some (e, (if e = 0 then None else Some (s ! (e - 1))), drop e s, g) \<and>
     m = \<lparr>m_index = j, m_text = take (e - j) (drop j s), m_caps = g\<rparr> \<and>
     exec_loop r i (if i = 0 then None else Some (s ! (i - 1))) (drop i s) =
       exec_loop r j (if j = 0 then None else Some (s ! (j - 1))) (drop j s)"
proof (induction "length s - i" arbitrary: i rule: less_induct)
  case less
  let ?p = "if i = 0 then None else Some (s ! (i - 1))"
  have sa: "state_at s i = (i, ?p, drop i s, [])" by (simp add: state_at_def)
  show ?case
  proof (cases "rx_at r (state_at s i)")
    case (Some st')
    from at_state_at [OF Some less.prems(1)] obtain e g where
      st': "st' = (e, (if e = 0 then None else Some (s ! (e - 1))), drop e s, g)"
      and e: "i \<le> e" "e \<le> length s" by blast
    have "rx_find r i ?p (drop i s) =
        Some \<lparr>m_index = i, m_text = take (e - i) (drop i s), m_caps = g\<rparr>"
      using Some st' sa by (simp add: rx_find.simps [of r i ?p "drop i s"])
    then have "m = \<lparr>m_index = i, m_text = take (e - i) (drop i s), m_caps = g\<rparr>"
      using less.prems(2) by simp
    then show ?thesis using Some st' e by blast
  next
    case None
    then have at: "rx_at r (i, ?p, drop i s, []) = None" using sa by simp
    have lt: "i < length s"
    proof (rule ccontr)
      assume "\<not> i < length s"
      then have "drop i s = []" by simp
      then have "rx_find r i ?p (drop i s) = None"
        using at by (simp add: rx_find.simps [of r i ?p "[]"])
      then show False using less.prems(2) by simp
    qed
    have d: "drop i s = s ! i # drop (Suc i) s"
      using lt by (simp add: Cons_nth_drop_Suc)
    have f: "rx_find r i ?p (drop i s) = rx_find r (Suc i) (Some (s ! i)) (drop (Suc i) s)"
      using at by (simp add: rx_find.simps [of r i ?p "drop i s"]) (simp add: d)
    have l: "exec_loop r i ?p (drop i s) = exec_loop r (Suc i) (Some (s ! i)) (drop (Suc i) s)"
      using at by (simp add: exec_loop.simps [of r i ?p "drop i s"]) (simp add: d)
    have "length s - Suc i < length s - i" using lt by simp
    from less.hyps [OF this] lt less.prems(2) f
    have "\<exists>j e g. Suc i \<le> j \<and> j \<le> e \<and> e \<le> length s \<and>
       rx_at r (state_at s j) = Some (e, (if e = 0 then None else Some (s ! (e - 1))), drop e s, g) \<and>
       m = \<lparr>m_index = j, m_text = take (e - j) (drop j s), m_caps = g\<rparr> \<and>
       exec_loop r (Suc i) (Some (s ! i)) (drop (Suc i) s) =
         exec_loop r j (if j = 0 then None else Some (s ! (j - 1))) (drop j s)"
      by simp
    then obtain j e g where "Suc i \<le> j" "j \<le> e" "e \<le> length s"
      "rx_at r (state_at s j) = Some (e, (if e = 0 then None else Some (s ! (e - 1))), drop e s, g)"
      "m = \<lparr>m_index = j, m_text = take (e - j) (drop j s), m_caps = g\<rparr>"
      "exec_loop r (Suc i) (Some (s ! i)) (drop (Suc i) s) =
         exec_loop r j (if j = 0 then None else Some (s ! (j - 1))) (drop j s)"
      by blast
    then show ?thesis using l by (intro exI [of _ j] exI [of _ e] exI [of _ g]) simp
  qed
qed

lemma loop_at_match:
  assumes "rx_at r (state_at s j) = Some (e, q, drop e s, g)" and "j \<le> e" and "e \<le> length s"
  shows "exec_loop r j (if j = 0 then None else Some (s ! (j - 1))) (drop j s) =
     (if j < e
      then map_option ((#) \<lparr>m_index = j, m_text = take (e - j) (drop j s), m_caps = g\<rparr>)
             (exec_loop r e q (drop e s))
      else None)"
  using assms by (subst exec_loop.simps) (auto simp: state_at_def)

lemma exec_while_pure:
  "a < length \<sigma> \<Longrightarrow> \<sigma> ! a \<le> length s \<Longrightarrow>
   exec_while r a s \<sigma> =
     map_option (\<lambda>ms. (ms, \<sigma>[a := 0]))
       (exec_loop r (\<sigma> ! a) (if \<sigma> ! a = 0 then None else Some (s ! (\<sigma> ! a - 1)))
          (drop (\<sigma> ! a) s))"
proof (induction "length s - \<sigma> ! a" arbitrary: \<sigma> rule: less_induct)
  case less
  let ?i = "\<sigma> ! a"
  let ?p = "if ?i = 0 then None else Some (s ! (?i - 1))"
  show ?case
  proof (cases "rx_find r ?i ?p (drop ?i s)")
    case None
    then have "regexp_exec r a s \<sigma> = (None, \<sigma>[a := 0])"
      using less.prems(2) by (simp add: regexp_exec_def Let_def)
    then have "exec_while r a s \<sigma> = Some ([], \<sigma>[a := 0])"
      by (subst exec_while.simps) simp
    then show ?thesis using find_None_loop [OF None] by simp
  next
    case (Some m)
    from find_Some_at [OF less.prems(2) Some] obtain j e g where
      j: "?i \<le> j" "j \<le> e" "e \<le> length s"
      and at: "rx_at r (state_at s j) =
          Some (e, (if e = 0 then None else Some (s ! (e - 1))), drop e s, g)"
      and m: "m = \<lparr>m_index = j, m_text = take (e - j) (drop j s), m_caps = g\<rparr>"
      and skip: "exec_loop r ?i ?p (drop ?i s) =
          exec_loop r j (if j = 0 then None else Some (s ! (j - 1))) (drop j s)"
      by blast
    have e: "m_index m + length (m_text m) = e" using m j by simp
    let ?\<sigma>' = "\<sigma>[a := e]"
    have ex: "regexp_exec r a s \<sigma> = (Some m, ?\<sigma>')"
      using Some less.prems(2) e by (simp add: regexp_exec_def Let_def)
    have at_a: "?\<sigma>' ! a = e" using less.prems(1) by simp
    have pure: "exec_loop r ?i ?p (drop ?i s) =
       (if j < e
        then map_option ((#) m) (exec_loop r e (if e = 0 then None else Some (s ! (e - 1))) (drop e s))
        else None)"
      using loop_at_match [OF at j(2,3)] skip m by simp
    show ?thesis
    proof (cases "?i < e")
      case True
      have "length s - ?\<sigma>' ! a < length s - ?i" using True j(3) at_a by simp
      from less.hyps [OF this] at_a j(3) less.prems(1)
      have rec: "exec_while r a s ?\<sigma>' =
          map_option (\<lambda>ms. (ms, \<sigma>[a := 0]))
            (exec_loop r e (if e = 0 then None else Some (s ! (e - 1))) (drop e s))"
        by simp
      have w: "exec_while r a s \<sigma> =
          map_option (\<lambda>(ms, \<sigma>''). (m # ms, \<sigma>'')) (exec_while r a s ?\<sigma>')"
        using ex True at_a by (subst exec_while.simps) simp
      show ?thesis
      proof (cases "j < e")
        case True
        then show ?thesis
          unfolding w rec pure
          by (cases "exec_loop r e (if e = 0 then None else Some (s ! (e - 1))) (drop e s)") simp_all
      next
        case False
        then have je: "j = e" using j(2) by simp
        have "exec_loop r j (if j = 0 then None else Some (s ! (j - 1))) (drop j s) = None"
          using loop_at_match [OF at j(2,3)] False by simp
        then have "exec_loop r e (if e = 0 then None else Some (s ! (e - 1))) (drop e s) = None"
          unfolding je .
        then show ?thesis unfolding w rec pure using False by simp
      qed
    next
      case False
      then have "\<not> j < e" using j(1) by simp
      moreover have "exec_while r a s \<sigma> = None"
        using ex False at_a by (subst exec_while.simps) simp
      ultimately show ?thesis using pure by simp
    qed
  qed
qed

lemma exec_while_fresh:
  assumes "a < length \<sigma>" and "\<sigma> ! a = 0"
  shows "exec_while r a s \<sigma> = map_option (\<lambda>ms. (ms, \<sigma>)) (execAll r s)"
proof -
  have "\<sigma>[a := 0] = \<sigma>" using assms by (metis list_update_id)
  then show ?thesis
    using exec_while_pure [OF assms(1), of s r] assms(2) by (simp add: execAll_def)
qed

section \<open>The analyzer on the store\<close>

lemma detectLoopsAndNesting_parts:
  "detectLoopsAndNesting code =
     (case execAll forRegex code of None \<Rightarrow> Inl NoReturn | Some fors \<Rightarrow>
      case execAll whileRegex code of None \<Rightarrow> Inl NoReturn | Some whiles \<Rightarrow>
      case execAll rangeForRegex code of None \<Rightarrow> Inl NoReturn | Some rangeFors \<Rightarrow>
        loopsInfoOf code fors whiles rangeFors)"
  by (simp add: detectLoopsAndNesting_def loopsInfoOf_def Let_def split: option.splits)

lemma detectLoopsAndNesting_st_pure:
  "detectLoopsAndNesting_st code \<sigma> = (detectLoopsAndNesting code, \<sigma> @ [0, 0, 0])"
proof -
  have f: "\<And>k r. k < 3 \<Longrightarrow> exec_while r (length \<sigma> + k) code (\<sigma> @ [0, 0, 0]) =
      map_option (\<lambda>ms. (ms, \<sigma> @ [0, 0, 0])) (execAll r code)"
  proof -
    fix k :: nat and r assume k: "k < 3"
    have "(\<sigma> @ [0, 0, 0]) ! (length \<sigma> + k) = 0"
      using k by (simp add: nth_append nth_Cons split: nat.splits)
    then show "exec_while r (length \<sigma> + k) code (\<sigma> @ [0, 0, 0]) =
        map_option (\<lambda>ms. (ms, \<sigma> @ [0, 0, 0])) (execAll r code)"
      using k by (intro exec_while_fresh) simp_all
  qed
  show ?thesis
    using f [of 0 forRegex] f [of 1 whileRegex] f [of 2 rangeForRegex]
    by (simp add: detectLoopsAndNesting_st_def detectLoopsAndNesting_parts newRegExp_def
          split: option.splits)
qed

lemma detectRecursion_parts:
  "detectRecursion code =
     (case execAll jsFunc code of None \<Rightarrow> Inl NoReturn | Some js \<Rightarrow>
      case execAll pyDef code of None \<Rightarrow> Inl NoReturn | Some py \<Rightarrow>
      case execAll cStyle code of None \<Rightarrow> Inl NoReturn | Some cs \<Rightarrow>
        recursionInfoOf code (js @ py @ cs))"
  by (simp add: detectRecursion_def recursionInfoOf_def Let_def split: option.splits)

lemma detectRecursion_st_pure:
  "\<exists>\<sigma>'. detectRecursion_st code \<sigma> = (detectRecursion code, \<sigma> @ \<sigma>')"
proof -
  have f: "\<And>r \<tau>. exec_while r (length \<tau>) code (\<tau> @ [0]) =
      map_option (\<lambda>ms. (ms, \<tau> @ [0])) (execAll r code)"
    by (intro exec_while_fresh) simp_all
  show ?thesis
    using f [of jsFunc \<sigma>] f [of pyDef "\<sigma> @ [0]"] f [of cStyle "\<sigma> @ [0, 0]"]
    by (auto simp add: detectRecursion_st_def detectRecursion_parts newRegExp_def
          split: option.splits)
qed

lemma verdictOf_decision:
  assumes "\<not> (rawCode = [] \<or> trim rawCode = [])"
    and "detectKnownAlgorithms (stripCommentsAndStrings rawCode) = None"
    and "detectLoopsAndNesting (stripCommentsAndStrings rawCode) = Inr li"
    and "detectRecursion (stripCommentsAndStrings rawCode) = Inr ri"
  shows "analyzeComplexity rawCode = verdictOf li ri"
  unfolding verdictOf_def by (rule structural_verdict [OF assms])

lemma analyzeComplexity_st_pure:
  "\<exists>\<sigma>'. analyzeComplexity_st rawCode \<sigma> = (analyzeComplexity rawCode, \<sigma> @ \<sigma>')"
proof (cases "rawCode = [] \<or> trim rawCode = []")
  case True
  then have "analyzeComplexity_st rawCode \<sigma> = (analyzeComplexity rawCode, \<sigma> @ [])"
    by (simp add: analyzeComplexity_st_def analyzeComplexity_def)
  then show ?thesis by blast
next
  case False
  let ?c = "stripCommentsAndStrings rawCode"
  show ?thesis
  proof (cases "detectKnownAlgorithms ?c")
    case (Some known)
    with False have "analyzeComplexity_st rawCode \<sigma> = (analyzeComplexity rawCode, \<sigma> @ [])"
      by (simp add: analyzeComplexity_st_def analyzeComplexity_def)
    then show ?thesis by blast
  next
    case None
    obtain li where li: "detectLoopsAndNesting ?c = Inr li"
      using detectLoopsAndNesting_returns by blast
    obtain ri where ri: "detectRecursion ?c = Inr ri"
      using detectRecursion_returns by blast
    obtain \<sigma>' where r: "detectRecursion_st ?c (\<sigma> @ [0, 0, 0]) = (Inr ri, (\<sigma> @ [0, 0, 0]) @ \<sigma>')"
      using detectRecursion_st_pure [of ?c "\<sigma> @ [0, 0, 0]"] ri by auto
    have "analyzeComplexity_st rawCode \<sigma> = (verdictOf li ri, \<sigma> @ ([0, 0, 0] @ \<sigma>'))"
      using False None li r
      by (simp add: analyzeComplexity_st_def detectLoopsAndNesting_st_pure)
    then show ?thesis using verdictOf_decision [OF False None li ri] by metis
  qed
qed

lemma eval_st_while:
  "analyzeComplexity_st ''while (x) { }'' [5, 2] =
     (Inr \<lparr>time = str ''O(1)'',
           timeExplanation = str ''No loops or recursion detected (heuristic).'',
           space = str ''O(n)'',
           spaceExplanation = str ''Output array grows with input size.'',
           details = Structure
             \<lparr>loopCount = 1, maxDepth = 0, maxNestedN = 0, logDetected = False,
              loopInfos = [\<lparr>type = While, header = Some ''x'', pos = 0, depth = 0,
                            iterKind = Unknown\<rparr>]\<rparr>
             \<lparr>found = False, functions = []\<rparr>\<rparr>,
      [5, 2, 0, 0, 0, 0, 0, 0])"
  by code_simp

section \<open>Claims\<close>

text \<open>
  C2. The verdict of a call is a function of the text alone. Whatever RegExp objects
  there are when the call begins, and whatever their \<open>lastIndex\<close>, the call returns the
  same verdict; so does a second call that begins in the store the first one has left;
  the call leaves every object that was there before it as it was, the objects it works
  on being created by itself; and the verdict is the value of \<open>analyzeComplexity\<close>, the
  function of the text in which no store is modelled.
\<close>

theorem analyzeComplexity_deterministic:
  "fst (analyzeComplexity_st s \<sigma>) = fst (analyzeComplexity_st s \<tau>) \<and>
   fst (analyzeComplexity_st s (snd (analyzeComplexity_st s \<sigma>))) = fst (analyzeComplexity_st s \<sigma>) \<and>
   take (length \<sigma>) (snd (analyzeComplexity_st s \<sigma>)) = \<sigma> \<and>
   fst (analyzeComplexity_st s \<sigma>) = analyzeComplexity s"
proof -
  have pure: "\<And>\<rho>. fst (analyzeComplexity_st s \<rho>) = analyzeComplexity s"
    using analyzeComplexity_st_pure [of s] by (metis fst_conv)
  obtain \<sigma>' where "analyzeComplexity_st s \<sigma> = (analyzeComplexity s, \<sigma> @ \<sigma>')"
    using analyzeComplexity_st_pure by blast
  then have "take (length \<sigma>) (snd (analyzeComplexity_st s \<sigma>)) = \<sigma>" by simp
  then show ?thesis by (simp add: pure)
qed

theorem analyzeComplexity_deterministic_witness:
  "fst (analyzeComplexity_st ''while (x) { }'' [5, 2]) = fst (analyzeComplexity_st ''while (x) { }'' []) \<and>
   fst (analyzeComplexity_st ''while (x) { }'' [5, 2, 0, 0, 0, 0, 0, 0]) =
     Inr \<lparr>time = str ''O(1)'',
          timeExplanation = str ''No loops or recursion detected (heuristic).'',
          space = str ''O(n)'',
          spaceExplanation = str ''Output array grows with input size.'',
          details = Structure
            \<lparr>loopCount = 1, maxDepth = 0, maxNestedN = 0, logDetected = False,
             loopInfos = [\<lparr>type = While, header = Some ''x'', pos = 0, depth = 0,
                           iterKind = Unknown\<rparr>]\<rparr>
            \<lparr>found = False, functions = []\<rparr>\<rparr>"
  using analyzeComplexity_deterministic [of "''while (x) { }''" "[5, 2]" "[]"] eval_st_while
  by simp

text \<open>
  C3, as amended. Whenever \<open>dijkstra\<close>, in any letter case, is left in the text by the
  sanitizer, as it is whenever it stands before the first of the characters \<open>/\<close>, \<open>#\<close>,
  \<open>"\<close>, \<open>'\<close> and \<open>`\<close>, the known-pattern branch is taken and the diagnostics name
  Dijkstra's algorithm, whatever loops, recursion and other names the text holds. The
  verdict's time is \<open>O((V + E) log V)\<close> when none of the twelve catalog entries that are
  scanned before Dijkstra's matches.
\<close>

theorem dijkstra_first_match:
  assumes "js_includes (lower (stripCommentsAndStrings rawCode)) ''dijkstra'' \<or>
           (\<exists>a b. rawCode = a @ b \<and> list_all plain a \<and> js_includes (lower a) ''dijkstra'')"
  shows "\<exists>v ms. analyzeComplexity rawCode = Inr v \<and> details v = Matches ms \<and>
           str (''Dijkstra'' @ [CHR 0x27] @ ''s algorithm'') \<in> set ms \<and>
           (resultsAfter 12 (stripCommentsAndStrings rawCode) = [] \<longrightarrow>
              time v = str ''O((V + E) log V)'')"
proof -
  let ?code = "stripCommentsAndStrings rawCode"
  let ?e = "\<lparr>r_name = str (''Dijkstra'' @ [CHR 0x27] @ ''s algorithm''),
             r_time = str ''O((V + E) log V)'', r_space = str ''O(V + E)''\<rparr>"
  have mention: "js_includes (lower ?code) ''dijkstra''"
    using assms mention_before_delimiters by blast
  have nb: "\<not> (rawCode = [] \<or> trim rawCode = [])"
    using mention blank_cleaned [of rawCode] space_no_mention [of ?code "CHR ''d''" "''ijkstra''"]
    by (auto simp: is_space_def)
  have "resultsAfter 13 ?code = (catalog ?code (lower ?code) ! 12) (resultsAfter 12 ?code)"
    using resultsAfter_Suc [of 12 ?code] by simp
  also have "\<dots> = resultsAfter 12 ?code @ [?e]"
    using mention by (simp add: catalog_def push_if_def)
  finally obtain ys where ys: "knownResults ?code = (resultsAfter 12 ?code @ [?e]) @ ys"
    using knownResults_prefix [of ?code 13] by auto
  then have mem: "?e \<in> set (knownResults ?code)" by simp
  have "knownResults ?code \<noteq> []" using ys by simp
  then obtain primary others where po: "knownResults ?code = primary # others"
    by (cases "knownResults ?code") simp_all
  have first: "resultsAfter 12 ?code = [] \<Longrightarrow> primary = ?e"
    using ys po by simp
  have "analyzeComplexity rawCode =
      Inr \<lparr>time = r_time primary,
           timeExplanation = str ''Detected known algorithm or strong hint: '' @ r_name primary @ str ''.'',
           space = r_space primary,
           spaceExplanation = r_space primary,
           details = Matches (map r_name (knownResults ?code))\<rparr>"
    using known_verdict [OF nb po] po by simp
  then show ?thesis using mem first by (auto simp: rev_image_eqI)
qed

text \<open>
  C3 fails as stated, in two ways. With another name present: in \<open>merge sort dijkstra\<close>
  the entry of merge sort is scanned first and gives the time. With a string literal that
  holds \<open>//\<close>: line comments are removed before string literals, so in
  \<open>u = "http://x"; dijkstra(g)\<close> the rest of the line goes with the comment, and the call
  outside the string is not seen.
\<close>

theorem dijkstra_other_names_counterexample:
  "analyzeComplexity ''merge sort dijkstra'' =
     Inr \<lparr>time = str ''O(n log n)'',
          timeExplanation = str ''Detected known algorithm or strong hint: Merge Sort.'',
          space = str ''O(n)'',
          spaceExplanation = str ''O(n)'',
          details = Matches [str ''Merge Sort'', str (''Dijkstra'' @ [CHR 0x27] @ ''s algorithm'')]\<rparr> \<and>
   analyzeComplexity (''u = '' @ [CHR 0x22] @ ''http://x'' @ [CHR 0x22] @ ''; dijkstra(g)'') =
     Inr \<lparr>time = str ''O(1)'',
          timeExplanation = str ''No loops or recursion detected (heuristic).'',
          space = str ''O(1)'',
          spaceExplanation = str ''No obvious dynamic allocations detected.'',
          details = Structure
            \<lparr>loopCount = 0, maxDepth = 0, maxNestedN = 0, logDetected = False, loopInfos = []\<rparr>
            \<lparr>found = False, functions = []\<rparr>\<rparr>"
  by (simp only: eval_merge_dijkstra eval_url_dijkstra simp_thms)

theorem dijkstra_first_match_witness:
  "(\<exists>v ms. analyzeComplexity ''while (q) { dijkstra(g); }'' = Inr v \<and> details v = Matches ms \<and>
      str (''Dijkstra'' @ [CHR 0x27] @ ''s algorithm'') \<in> set ms \<and>
      time v = str ''O((V + E) log V)'') \<and>
   (\<exists>v ms. analyzeComplexity (''dijkstra(g); '' @ ''// shortest paths'') = Inr v \<and>
      details v = Matches ms \<and>
      str (''Dijkstra'' @ [CHR 0x27] @ ''s algorithm'') \<in> set ms \<and>
      time v = str ''O((V + E) log V)'')"
proof
  show "\<exists>v ms. analyzeComplexity ''while (q) { dijkstra(g); }'' = Inr v \<and> details v = Matches ms \<and>
      str (''Dijkstra'' @ [CHR 0x27] @ ''s algorithm'') \<in> set ms \<and>
      time v = str ''O((V + E) log V)''"
    using dijkstra_first_match [of "''while (q) { dijkstra(g); }''"]
      mention_loop_dijkstra before_loop_dijkstra by simp
  have "\<exists>a b. ''dijkstra(g); '' @ ''// shortest paths'' = a @ b \<and> list_all plain a \<and>
      js_includes (lower a) ''dijkstra''"
    using plain_call_dijkstra lower_call_dijkstra by blast
  then show "\<exists>v ms. analyzeComplexity (''dijkstra(g); '' @ ''// shortest paths'') = Inr v \<and>
      details v = Matches ms \<and>
      str (''Dijkstra'' @ [CHR 0x27] @ ''s algorithm'') \<in> set ms \<and>
      time v = str ''O((V + E) log V)''"
    using dijkstra_first_match [of "''dijkstra(g); '' @ ''// shortest paths''"]
      before_call_dijkstra by simp
qed

text \<open>
  C8, as amended. The diagnostics carry the loop records and the recursion records in
  every structural branch (recursion, loops, default). In the empty-input branch they are
  the empty object, and in the known-pattern branch they are the names of the matches.
\<close>

theorem details_by_branch:
  "(rawCode = [] \<or> trim rawCode = [] \<longrightarrow>
      (\<exists>v. analyzeComplexity rawCode = Inr v \<and> details v = NoDetails)) \<and>
   (\<not> (rawCode = [] \<or> trim rawCode = []) \<and> knownResults (stripCommentsAndStrings rawCode) \<noteq> [] \<longrightarrow>
      (\<exists>v. analyzeComplexity rawCode = Inr v \<and>
           details v = Matches (map r_name (knownResults (stripCommentsAndStrings rawCode))))) \<and>
   (\<not> (rawCode = [] \<or> trim rawCode = []) \<and> knownResults (stripCommentsAndStrings rawCode) = [] \<longrightarrow>
      (\<exists>v li ri. analyzeComplexity rawCode = Inr v \<and>
           detectLoopsAndNesting (stripCommentsAndStrings rawCode) = Inr li \<and>
           detectRecursion (stripCommentsAndStrings rawCode) = Inr ri \<and>
           details v = Structure li ri))"
proof (intro conjI impI)
  assume "rawCode = [] \<or> trim rawCode = []"
  then show "\<exists>v. analyzeComplexity rawCode = Inr v \<and> details v = NoDetails"
    by (simp add: analyzeComplexity_def)
next
  assume a: "\<not> (rawCode = [] \<or> trim rawCode = []) \<and> knownResults (stripCommentsAndStrings rawCode) \<noteq> []"
  then obtain primary others where
    "knownResults (stripCommentsAndStrings rawCode) = primary # others"
    by (cases "knownResults (stripCommentsAndStrings rawCode)") auto
  with a known_verdict [of rawCode primary others]
  show "\<exists>v. analyzeComplexity rawCode = Inr v \<and>
           details v = Matches (map r_name (knownResults (stripCommentsAndStrings rawCode)))"
    by simp
next
  assume a: "\<not> (rawCode = [] \<or> trim rawCode = []) \<and> knownResults (stripCommentsAndStrings rawCode) = []"
  obtain li where li: "detectLoopsAndNesting (stripCommentsAndStrings rawCode) = Inr li"
    using detectLoopsAndNesting_returns by blast
  obtain ri where ri: "detectRecursion (stripCommentsAndStrings rawCode) = Inr ri"
    using detectRecursion_returns by blast
  obtain b where b: "hasNestedSameArrayLoop (loopInfos li) = Inr b"
    using hasNestedSameArrayLoop_returns detectLoopsAndNesting_fields(4) [OF li] by blast
  have "\<exists>v. analyzeComplexity rawCode = Inr v \<and> details v = Structure li ri"
    unfolding structural_verdict [OF conjunct1 [OF a] known_None [THEN iffD2, OF conjunct2 [OF a]] li ri]
    by (simp add: b)
  then show "\<exists>v li ri. analyzeComplexity rawCode = Inr v \<and>
           detectLoopsAndNesting (stripCommentsAndStrings rawCode) = Inr li \<and>
           detectRecursion (stripCommentsAndStrings rawCode) = Inr ri \<and>
           details v = Structure li ri"
    using li ri by blast
qed

text \<open>
  C8 fails as stated: for the empty text the diagnostics are the empty object, and for
  the text \<open>dijkstra\<close> they are the list of match names; neither carries loop or recursion
  records.
\<close>

theorem details_without_records_counterexample:
  "analyzeComplexity [] =
     Inr \<lparr>time = str ''O(1)'',
          timeExplanation = str ''Empty or trivial code.'',
          space = str ''O(1)'',
          spaceExplanation = str ''No allocations detected.'',
          details = NoDetails\<rparr> \<and>
   analyzeComplexity ''dijkstra'' =
     Inr \<lparr>time = str ''O((V + E) log V)'',
          timeExplanation =
            str (''Detected known algorithm or strong hint: Dijkstra'' @ [CHR 0x27] @ ''s algorithm.''),
          space = str ''O(V + E)'',
          spaceExplanation = str ''O(V + E)'',
          details = Matches [str (''Dijkstra'' @ [CHR 0x27] @ ''s algorithm'')]\<rparr>"
  by (simp add: eval_dijkstra) (simp add: analyzeComplexity_def)

theorem details_by_branch_witness:
  "\<exists>v li ri. analyzeComplexity ''x'' = Inr v \<and>
       detectLoopsAndNesting (stripCommentsAndStrings ''x'') = Inr li \<and>
       detectRecursion (stripCommentsAndStrings ''x'') = Inr ri \<and>
       details v = Structure li ri"
  using details_by_branch [of "''x''"] not_blank_x known_x by blast

text \<open>
  C9, as amended. When the sanitized text, in lower case, holds a Fibonacci mention (\<open>fib(\<close>
  at the start of a word, or the word \<open>fibonacci\<close>), the known-pattern branch is taken and
  the matcher's results hold exactly one of the two Fibonacci entries. Which one is decided
  by four keywords and by nothing else: when that text has a word that begins with \<open>mem\<close>,
  the letters \<open>memo\<close> at the end of a word, the word \<open>cache\<close> or the word \<open>dp\<close>, it is the
  entry \<open>Memoized Fibonacci (DP)\<close> with time \<open>O(n)\<close> and space \<open>O(n)\<close>; otherwise it is the
  entry \<open>Naive Recursive Fibonacci\<close> with time \<open>O(2^n)\<close> and space \<open>O(n)\<close>. The name of
  that entry is among the diagnostics, the name of the other one is not, and its bounds
  are the verdict's when no earlier catalog entry matches.
\<close>

theorem fibonacci_classified:
  assumes "fibonacci_mention (lower (stripCommentsAndStrings rawCode))"
  shows "\<exists>v ms. analyzeComplexity rawCode = Inr v \<and> details v = Matches ms \<and>
    (if memo_keyword (lower (stripCommentsAndStrings rawCode))
     then \<lparr>r_name = str ''Memoized Fibonacci (DP)'', r_time = str ''O(n)'', r_space = str ''O(n)''\<rparr>
            \<in> set (knownResults (stripCommentsAndStrings rawCode)) \<and>
          str ''Memoized Fibonacci (DP)'' \<in> set ms \<and>
          str ''Naive Recursive Fibonacci'' \<notin> set ms \<and>
          (resultsAfter 17 (stripCommentsAndStrings rawCode) = [] \<longrightarrow>
             time v = str ''O(n)'' \<and> space v = str ''O(n)'')
     else \<lparr>r_name = str ''Naive Recursive Fibonacci'', r_time = str ''O(2^n)'', r_space = str ''O(n)''\<rparr>
            \<in> set (knownResults (stripCommentsAndStrings rawCode)) \<and>
          str ''Naive Recursive Fibonacci'' \<in> set ms \<and>
          str ''Memoized Fibonacci (DP)'' \<notin> set ms \<and>
          (resultsAfter 17 (stripCommentsAndStrings rawCode) = [] \<longrightarrow>
             time v = str ''O(2^n)'' \<and> space v = str ''O(n)''))"
proof -
  let ?code = "stripCommentsAndStrings rawCode"
  let ?e = "if rx_test memoRx (lower ?code)
      then \<lparr>r_name = str ''Memoized Fibonacci (DP)'', r_time = str ''O(n)'', r_space = str ''O(n)''\<rparr>
      else \<lparr>r_name = str ''Naive Recursive Fibonacci'', r_time = str ''O(2^n)'', r_space = str ''O(n)''\<rparr>"
  have mention: "rx_test fibRx (lower ?code)"
    using assms by (simp add: fibRx_reads)
  have nb: "\<not> (rawCode = [] \<or> trim rawCode = [])"
    using mention blank_cleaned [of rawCode] test_space [OF first_not_fibRx] by blast
  obtain ys where ys: "knownResults ?code = (resultsAfter 17 ?code @ [?e]) @ ys"
    using knownResults_prefix [of ?code 18] fib_step [OF mention] by auto
  then have mem: "?e \<in> set (knownResults ?code)" by simp
  have "knownResults ?code \<noteq> []"
    using ys by simp
  then obtain primary others where po: "knownResults ?code = primary # others"
    by (cases "knownResults ?code") simp_all
  have first: "resultsAfter 17 ?code = [] \<Longrightarrow> primary = ?e"
    using ys po by simp
  have v: "analyzeComplexity rawCode =
      Inr \<lparr>time = r_time primary,
           timeExplanation = str ''Detected known algorithm or strong hint: '' @ r_name primary @ str ''.'',
           space = r_space primary,
           spaceExplanation = r_space primary,
           details = Matches (map r_name (knownResults ?code))\<rparr>"
    using known_verdict [OF nb po] po by simp
  show ?thesis
  proof (cases "rx_test memoRx (lower ?code)")
    case True
    then show ?thesis
      using v mem first knownResults_no_naive [OF True]
      by (auto simp: rev_image_eqI memoRx_reads [symmetric])
  next
    case False
    then show ?thesis
      using v mem first knownResults_no_memo [OF False]
      by (auto simp: rev_image_eqI memoRx_reads [symmetric])
  qed
qed

theorem memoization_keyword_counterexample:
  "js_includes ''lru_cache fib(n)'' ''cache'' \<and>
   analyzeComplexity ''lru_cache fib(n)'' =
     Inr \<lparr>time = str ''O(2^n)'',
          timeExplanation = str ''Detected known algorithm or strong hint: Naive Recursive Fibonacci.'',
          space = str ''O(n)'',
          spaceExplanation = str ''O(n)'',
          details = Matches [str ''Naive Recursive Fibonacci'']\<rparr> \<and>
   \<not> js_includes ''member fib(n)'' ''memo'' \<and>
   \<not> js_includes ''member fib(n)'' ''cache'' \<and>
   \<not> js_includes ''member fib(n)'' ''dp'' \<and>
   analyzeComplexity ''member fib(n)'' =
     Inr \<lparr>time = str ''O(n)'',
          timeExplanation = str ''Detected known algorithm or strong hint: Memoized Fibonacci (DP).'',
          space = str ''O(n)'',
          spaceExplanation = str ''O(n)'',
          details = Matches [str ''Memoized Fibonacci (DP)'']\<rparr>"
  by code_simp

theorem fibonacci_classified_witness:
  "(\<exists>v ms. analyzeComplexity ''memo fib(n)'' = Inr v \<and> details v = Matches ms \<and>
     \<lparr>r_name = str ''Memoized Fibonacci (DP)'', r_time = str ''O(n)'', r_space = str ''O(n)''\<rparr>
        \<in> set (knownResults (stripCommentsAndStrings ''memo fib(n)'')) \<and>
     str ''Memoized Fibonacci (DP)'' \<in> set ms \<and>
     str ''Naive Recursive Fibonacci'' \<notin> set ms \<and>
     time v = str ''O(n)'' \<and> space v = str ''O(n)'') \<and>
   (\<exists>v ms. analyzeComplexity ''fib(n)'' = Inr v \<and> details v = Matches ms \<and>
     \<lparr>r_name = str ''Naive Recursive Fibonacci'', r_time = str ''O(2^n)'', r_space = str ''O(n)''\<rparr>
        \<in> set (knownResults (stripCommentsAndStrings ''fib(n)'')) \<and>
     str ''Naive Recursive Fibonacci'' \<in> set ms \<and>
     str ''Memoized Fibonacci (DP)'' \<notin> set ms \<and>
     time v = str ''O(2^n)'' \<and> space v = str ''O(n)'')"
  using fibonacci_classified [OF fib_mention_memo] fibonacci_classified [OF fib_mention_plain]
    fib_keyword_memo fib_keyword_plain eval_fib_before fib_before_plain
  by simp

end
